theory Spec2Isabelle
  imports Main "HOL-Library.Word"
begin

unbundle bit_operations_syntax

section \<open>Data model\<close>

text \<open>
  The library (steg.go) hides a text in the low bits of the red, green and blue channels
  of an image and reads it back. Go's machine integers \<open>uint8\<close> and \<open>uint32\<close> are words;
  Go's \<open>int\<close> (64 bits, never near its limits here) is \<open>int\<close>, and slice indices that
  only count upwards from 0 are \<open>nat\<close>. A Go \<open>string\<close> is a sequence of bytes: \<open>string\<close>.
\<close>

type_synonym u8 = "8 word"
type_synonym u32 = "32 word"

text \<open>
  The errors the library returns, named after the situations they report:
  \<^item> \<open>NoImageLoaded\<close>: \<^verbatim>\<open>errors.New("no image loaded")\<close>;
  \<^item> \<open>CapacityExceeded\<close>: \<^verbatim>\<open>errors.New("not enough pixels to hide secret")\<close>;
  \<^item> \<open>SentinelNotFound\<close>: \<^verbatim>\<open>errors.New("error finding embedded secret string")\<close>;
  \<^item> \<open>AtoiError\<close>: the error of \<^verbatim>\<open>strconv.Atoi\<close>;
  \<^item> \<open>RuntimePanic\<close>: a panic of the Go runtime (nil dereference, slice bounds out of
    range, a negative capacity given to \<^verbatim>\<open>make\<close>, a rectangle refused by \<^verbatim>\<open>image.NewRGBA\<close>).
\<close>

datatype error = NoImageLoaded | CapacityExceeded | SentinelNotFound | AtoiError | RuntimePanic

text \<open>\<^verbatim>\<open>stopStegConst\<close>: where the implanted message ends.\<close>

definition stopStegConst :: string where
  "stopStegConst = ''##STOP_STEG##''"

text \<open>\<^verbatim>\<open>color.RGBA\<close>: four 8-bit channels.\<close>

record rgba =
  colR :: u8
  colG :: u8
  colB :: u8
  colA :: u8

text \<open>
  A \<^verbatim>\<open>color.Color\<close> is an interface with the single method \<^verbatim>\<open>RGBA()\<close>, which returns four
  \<open>uint32\<close>; the program observes a colour only through that method, so a colour of
  unknown dynamic type is the quadruple that method returns.
\<close>

type_synonym color = "u32 \<times> u32 \<times> u32 \<times> u32"

text \<open>\<^verbatim>\<open>color.RGBA.RGBA()\<close>: each channel \<open>c\<close> becomes \<open>c | c << 8\<close>.\<close>

definition RGBA :: "rgba \<Rightarrow> color" where
  "RGBA c =
     (let r = (ucast (colR c) :: u32); r = r OR push_bit 8 r;
          g = (ucast (colG c) :: u32); g = g OR push_bit 8 g;
          b = (ucast (colB c) :: u32); b = b OR push_bit 8 b;
          a = (ucast (colA c) :: u32); a = a OR push_bit 8 a
      in (r, g, b, a))"

text \<open>\<^verbatim>\<open>image.Rectangle\<close>: \<open>Min\<close> is inclusive, \<open>Max\<close> exclusive.\<close>

record rectangle =
  MinX :: int
  MinY :: int
  MaxX :: int
  MaxY :: int

text \<open>\<^verbatim>\<open>image.Point{x, y}.In(r)\<close>.\<close>

definition inRect :: "int \<Rightarrow> int \<Rightarrow> rectangle \<Rightarrow> bool" where
  "inRect x y r \<longleftrightarrow> MinX r \<le> x \<and> x < MaxX r \<and> MinY r \<le> y \<and> y < MaxY r"

text \<open>
  \<^verbatim>\<open>image.Image\<close>: an interface, observed through \<^verbatim>\<open>Bounds()\<close> and \<^verbatim>\<open>At(x, y)\<close>.
\<close>

record image =
  imgBounds :: rectangle
  imgAt :: "int \<Rightarrow> int \<Rightarrow> color"

text \<open>
  \<^verbatim>\<open>image.RGBA\<close>: a rectangle and one \<^verbatim>\<open>color.RGBA\<close> per point. \<^verbatim>\<open>At\<close> returns the zero
  colour outside the rectangle and \<^verbatim>\<open>SetRGBA\<close> does nothing there.
\<close>

record rgba_image =
  Rect :: rectangle
  Pix :: "int \<times> int \<Rightarrow> rgba"

definition zeroRGBA :: rgba where
  "zeroRGBA = \<lparr>colR = 0, colG = 0, colB = 0, colA = 0\<rparr>"

definition RGBAAt :: "rgba_image \<Rightarrow> int \<Rightarrow> int \<Rightarrow> rgba" where
  "RGBAAt p x y = (if inRect x y (Rect p) then Pix p (x, y) else zeroRGBA)"

definition SetRGBA :: "rgba_image \<Rightarrow> int \<Rightarrow> int \<Rightarrow> rgba \<Rightarrow> rgba_image" where
  "SetRGBA p x y c = (if inRect x y (Rect p) then p\<lparr>Pix := (Pix p)((x, y) := c)\<rparr> else p)"

text \<open>An \<^verbatim>\<open>*image.RGBA\<close> used as an \<^verbatim>\<open>image.Image\<close>.\<close>

definition asImage :: "rgba_image \<Rightarrow> image" where
  "asImage p = \<lparr>imgBounds = Rect p, imgAt = (\<lambda>x y. RGBA (RGBAAt p x y))\<rparr>"

text \<open>\<^verbatim>\<open>StegImage\<close>: all variables needed for image manipulation; \<open>None\<close> is Go's \<open>nil\<close>.\<close>

record StegImage =
  imgLoaded :: "image option"
  imgType :: string
  secretBits :: "int list"
  newImg :: "rgba_image option"

text \<open>
  Go's \<^verbatim>\<open>int\<close>, 64 bits wide as on every 64-bit platform: \<open>+\<close>, \<open>-\<close> and \<open>*\<close> give the
  mathematical result wrapped to 64 bits in two's complement. The coordinates of a
  rectangle are such values; \<open>goInt\<close> is applied where the code computes with them.
\<close>

definition goInt :: "int \<Rightarrow> int" where
  "goInt k = sint (word_of_int k :: 64 word)"

section \<open>Embedding\<close>

text \<open>\<^verbatim>\<open>manipulateLSB\<close>: \<open>uint8(i)\<close> with its lowest bit unset when the bit \<open>b\<close> is 0, set otherwise.\<close>

definition manipulateLSB :: "int \<Rightarrow> int \<Rightarrow> u8" where
  "manipulateLSB i b =
     (let newI = (word_of_int i :: u8)
      in if b = 0 then newI AND NOT (push_bit 0 1) else newI OR push_bit 0 1)"

text \<open>
  The body of the inner loop of \<^verbatim>\<open>embedSecret\<close> once \<open>secretIndex < len(s.secretBits)\<close> holds:
  red always takes a bit, green and blue take one each while bits remain, alpha is
  \<open>uint8(a / 0x101)\<close>. It returns the new colour and the new \<open>secretIndex\<close>.
\<close>

definition embedPixel :: "int list \<Rightarrow> nat \<Rightarrow> color \<Rightarrow> rgba \<times> nat" where
  "embedPixel bits secretIndex c =
     (case c of (r, g, b, a) \<Rightarrow>
        let newR = manipulateLSB (uint r) (bits ! secretIndex);
            i1 = secretIndex + 1;
            newG = (if i1 < length bits then manipulateLSB (uint g) (bits ! i1) else ucast g);
            i2 = (if i1 < length bits then i1 + 1 else i1);
            newB = (if i2 < length bits then manipulateLSB (uint b) (bits ! i2) else ucast b);
            i3 = (if i2 < length bits then i2 + 1 else i2)
        in (\<lparr>colR = newR, colG = newG, colB = newB, colA = ucast (a div 0x101)\<rparr>, i3))"

text \<open>The inner loop over \<open>y\<close>, from the current \<open>y\<close> up to \<open>bounds.Max.Y\<close>, with its \<open>break\<close>.\<close>

function embedColumn ::
  "int list \<Rightarrow> rectangle \<Rightarrow> int \<Rightarrow> int \<Rightarrow> nat \<times> rgba_image \<Rightarrow> nat \<times> rgba_image" where
  "embedColumn bits bounds x y (secretIndex, img) =
     (if y < MaxY bounds then
        (if secretIndex < length bits then
           (case embedPixel bits secretIndex (RGBA (RGBAAt img x y)) of
              (c, i) \<Rightarrow> embedColumn bits bounds x (y + 1) (i, SetRGBA img x y c))
         else (secretIndex, img))
      else (secretIndex, img))"
  by pat_completeness auto
termination
  by (relation "measure (\<lambda>(bits, bounds, x, y, st). nat (MaxY bounds - y))") auto

declare embedColumn.simps [simp del]

text \<open>The outer loop over \<open>x\<close>, with its \<open>break\<close> once every bit is written.\<close>

function embedColumns ::
  "int list \<Rightarrow> rectangle \<Rightarrow> int \<Rightarrow> nat \<times> rgba_image \<Rightarrow> nat \<times> rgba_image" where
  "embedColumns bits bounds x st =
     (if x < MaxX bounds then
        (let st' = embedColumn bits bounds x (MinY bounds) st
         in if fst st' \<ge> length bits then st' else embedColumns bits bounds (x + 1) st')
      else st)"
  by pat_completeness auto
termination
  by (relation "measure (\<lambda>(bits, bounds, x, st). nat (MaxX bounds - x))") auto

declare embedColumns.simps [simp del]

text \<open>
  \<^verbatim>\<open>embedSecret\<close>: the capacity check, then the two loops. The method reads \<open>s.newImg\<close>
  first, a nil dereference when there is none. The check compares the number of bits
  with \<open>bounds.Max.X * bounds.Max.Y * 3\<close>, two multiplications of \<^verbatim>\<open>int\<close>.
\<close>

definition embedSecret :: "StegImage \<Rightarrow> StegImage \<times> error option" where
  "embedSecret s =
     (case newImg s of
        None \<Rightarrow> (s, Some RuntimePanic)
      | Some img \<Rightarrow>
          let bounds = Rect img
          in if int (length (secretBits s)) > goInt (goInt (MaxX bounds * MaxY bounds) * 3)
             then (s, Some CapacityExceeded)
             else (s\<lparr>newImg := Some (snd (embedColumns (secretBits s) bounds (MinX bounds) (0, img)))\<rparr>,
                   None))"

section \<open>Serialising the secret\<close>

text \<open>
  A \<^verbatim>\<open>range\<close> loop over a Go string decodes UTF-8: each step yields one rune (a code
  point) and its width in bytes; a byte that starts no valid encoding yields
  \<open>RuneError\<close> (U+FFFD) with width 1. This is \<^verbatim>\<open>utf8.DecodeRuneInString\<close> with its table of
  first bytes and accepted ranges of the second byte written out.
\<close>

definition RuneError :: nat where
  "RuneError = 0xFFFD"

definition decodeRune :: "string \<Rightarrow> nat \<times> nat" where
  "decodeRune s =
     (case s of
        [] \<Rightarrow> (RuneError, 0)
      | c0 # rest \<Rightarrow>
          let s0 = (of_char c0 :: nat)
          in if s0 < 0x80 then (s0, 1)
             else if s0 < 0xC2 \<or> 0xF4 < s0 then (RuneError, 1)
             else
               let sz = (if s0 < 0xE0 then 2 else if s0 < 0xF0 then 3 else 4 :: nat);
                   lo = (if s0 = 0xE0 then 0xA0 else if s0 = 0xF0 then 0x90 else 0x80 :: nat);
                   hi = (if s0 = 0xED then 0x9F else if s0 = 0xF4 then 0x8F else 0xBF :: nat)
               in if length s < sz then (RuneError, 1)
                  else
                    let s1 = (of_char (s ! 1) :: nat)
                    in if s1 < lo \<or> hi < s1 then (RuneError, 1)
                       else if sz \<le> 2 then ((s0 mod 32) * 64 + s1 mod 64, 2)
                       else
                         let s2 = (of_char (s ! 2) :: nat)
                         in if s2 < 0x80 \<or> 0xBF < s2 then (RuneError, 1)
                            else if sz \<le> 3
                            then ((s0 mod 16) * 4096 + (s1 mod 64) * 64 + s2 mod 64, 3)
                            else
                              let s3 = (of_char (s ! 3) :: nat)
                              in if s3 < 0x80 \<or> 0xBF < s3 then (RuneError, 1)
                                 else ((s0 mod 8) * 262144 + (s1 mod 64) * 4096
                                         + (s2 mod 64) * 64 + s3 mod 64, 4))"

text \<open>The binary digits of a number, most significant first; none for 0.\<close>

fun binDigits :: "nat \<Rightarrow> string" where
  "binDigits n =
     (if n = 0 then [] else binDigits (n div 2) @ [if n mod 2 = 0 then CHR ''0'' else CHR ''1''])"

declare binDigits.simps [simp del]

text \<open>\<^verbatim>\<open>fmt.Sprintf("%.8b", c)\<close>: the binary digits of \<open>c\<close>, padded with zeros to at least 8.\<close>

definition sprintf_08b :: "nat \<Rightarrow> string" where
  "sprintf_08b c = (let ds = binDigits c in replicate (8 - length ds) (CHR ''0'') @ ds)"

text \<open>\<^verbatim>\<open>stringToBinary\<close>: the loop over the runes of \<open>s\<close>, appending to \<open>res\<close>.\<close>

function stringToBinaryLoop :: "string \<Rightarrow> string \<Rightarrow> string" where
  "stringToBinaryLoop s res =
     (if s = [] then res
      else stringToBinaryLoop (drop (snd (decodeRune s)) s) (res @ sprintf_08b (fst (decodeRune s))))"
  by pat_completeness auto
termination
proof (relation "measure (\<lambda>(s, res). length s)")
  show "wf (measure (\<lambda>(s, res). length s))" by simp
next
  fix s res :: string
  assume "s \<noteq> []"
  then have "1 \<le> snd (decodeRune s)"
    by (cases s) (simp_all add: decodeRune_def Let_def)
  with \<open>s \<noteq> []\<close>
  show "((drop (snd (decodeRune s)) s, res @ sprintf_08b (fst (decodeRune s))), (s, res))
               \<in> measure (\<lambda>(s, res). length s)"
    by (cases s) auto
qed

declare stringToBinaryLoop.simps [simp del]

definition stringToBinary :: "string \<Rightarrow> string" where
  "stringToBinary s = stringToBinaryLoop s []"

text \<open>
  \<^verbatim>\<open>strings.Index\<close>, \<^verbatim>\<open>strings.Contains\<close> and \<^verbatim>\<open>strings.Split\<close>. With an empty separator
  \<^verbatim>\<open>Split\<close> cuts after each UTF-8 sequence; otherwise it cuts at each occurrence of the
  separator, found from the left.
\<close>

fun Index :: "string \<Rightarrow> string \<Rightarrow> nat option" where
  "Index [] sep = (if sep = [] then Some 0 else None)"
| "Index (c # cs) sep =
     (if take (length sep) (c # cs) = sep then Some 0 else map_option Suc (Index cs sep))"

definition Contains :: "string \<Rightarrow> string \<Rightarrow> bool" where
  "Contains s substr \<longleftrightarrow> Index s substr \<noteq> None"

function explode :: "string \<Rightarrow> string list" where
  "explode s =
     (if s = [] then []
      else take (snd (decodeRune s)) s # explode (drop (snd (decodeRune s)) s))"
  by pat_completeness auto
termination
proof (relation "measure length")
  show "wf (measure (length :: string \<Rightarrow> nat))" by simp
next
  fix s :: string
  assume "s \<noteq> []"
  then have "1 \<le> snd (decodeRune s)"
    by (cases s) (simp_all add: decodeRune_def Let_def)
  with \<open>s \<noteq> []\<close> show "(drop (snd (decodeRune s)) s, s) \<in> measure length"
    by (cases s) auto
qed

declare explode.simps [simp del]

function Split :: "string \<Rightarrow> string \<Rightarrow> string list" where
  "Split s sep =
     (if sep = [] then explode s
      else (case Index s sep of
              None \<Rightarrow> [s]
            | Some m \<Rightarrow> take m s # Split (drop (m + length sep) s) sep))"
  by pat_completeness auto
termination
proof (relation "measure (\<lambda>(s, sep). length s)")
  show "wf (measure (\<lambda>(s :: string, sep :: string). length s))" by simp
next
  fix s sep :: string and m :: nat
  assume sep: "sep \<noteq> []" and found: "Index s sep = Some m"
  have "Index s sep = Some m \<Longrightarrow> m + length sep \<le> length s" for m
  proof (induction s arbitrary: m)
    case Nil
    then show ?case by (simp split: if_splits)
  next
    case (Cons c cs)
    show ?case
    proof (cases "take (length sep) (c # cs) = sep")
      case True
      then have "length (take (length sep) (c # cs)) = length sep"
        by simp
      then have "length sep \<le> length (c # cs)"
        unfolding length_take by linarith
      with True Cons.prems show ?thesis by simp
    next
      case False
      with Cons.prems obtain k where "Index cs sep = Some k" "m = Suc k" by auto
      with Cons.IH show ?thesis by simp
    qed
  qed
  with sep found
  show "((drop (m + length sep) s, sep), (s, sep)) \<in> measure (\<lambda>(s, sep). length s)"
    by (cases sep) auto
qed

declare Split.simps [simp del]

text \<open>
  \<^verbatim>\<open>strconv.Atoi\<close>: an optional sign, then decimal digits only, the value within 64 bits.
\<close>

definition isDigit :: "char \<Rightarrow> bool" where
  "isDigit c \<longleftrightarrow> 48 \<le> (of_char c :: nat) \<and> (of_char c :: nat) \<le> 57"

definition Atoi :: "string \<Rightarrow> error + int" where
  "Atoi s =
     (let neg = (s \<noteq> [] \<and> hd s = CHR ''-'');
          ds = (if s \<noteq> [] \<and> (hd s = CHR ''+'' \<or> hd s = CHR ''-'') then tl s else s)
      in if ds = [] \<or> \<not> list_all isDigit ds then Inl AtoiError
         else
           let v = foldl (\<lambda>a c. 10 * a + (of_char c - 48)) (0 :: int) ds;
               v = (if neg then - v else v)
           in if v < - (2 ^ 63) \<or> 2 ^ 63 \<le> v then Inl AtoiError else Inr v)"

text \<open>\<^verbatim>\<open>stringsToInts\<close>: stops at the first string that is no number, keeping what it has.\<close>

fun stringsToIntsLoop :: "string list \<Rightarrow> int list \<Rightarrow> int list \<times> error option" where
  "stringsToIntsLoop [] ints = (ints, None)"
| "stringsToIntsLoop (i # s) ints =
     (case Atoi i of
        Inl e \<Rightarrow> (ints, Some e)
      | Inr j \<Rightarrow> stringsToIntsLoop s (ints @ [j]))"

definition stringsToInts :: "string list \<Rightarrow> int list \<times> error option" where
  "stringsToInts s = stringsToIntsLoop s []"

text \<open>\<^verbatim>\<open>loadSecret\<close>: the bits of \<open>secret + stopStegConst\<close> go into \<open>s.secretBits\<close>.\<close>

definition loadSecret :: "StegImage \<Rightarrow> string \<Rightarrow> StegImage \<times> error option" where
  "loadSecret s secret =
     (let secretWordBin = stringToBinary (secret @ stopStegConst);
          secretWordBinList = Split secretWordBin [];
          (ints, err) = stringsToInts secretWordBinList
      in (s\<lparr>secretBits := ints\<rparr>, err))"

text \<open>
  \<^verbatim>\<open>mul3NonNeg\<close> of package \<^verbatim>\<open>image\<close>: \<open>x * y * z\<close>, or -1 when an argument is negative or
  the product overflows an \<^verbatim>\<open>int\<close>. It multiplies with \<^verbatim>\<open>bits.Mul64\<close> and gives up when
  the high word of \<open>x * y\<close> or of the whole product is not zero, or when the low word,
  read as an \<^verbatim>\<open>int\<close>, is negative.
\<close>

definition mul3NonNeg :: "int \<Rightarrow> int \<Rightarrow> int \<Rightarrow> int" where
  "mul3NonNeg x y z =
     (if x < 0 \<or> y < 0 \<or> z < 0 then - 1
      else if 2 ^ 64 \<le> x * y then - 1
      else if 2 ^ 64 \<le> x * y * z then - 1
      else if 2 ^ 63 \<le> x * y * z then - 1
      else x * y * z)"

text \<open>
  \<^verbatim>\<open>createMutableImage\<close>: refuses a missing image, then draws the loaded image onto a new,
  zeroed \<^verbatim>\<open>image.RGBA\<close> of the same bounds. \<^verbatim>\<open>image.NewRGBA\<close> panics when
  \<open>mul3NonNeg(4, r.Dx(), r.Dy())\<close> is negative: on a rectangle of negative width or
  height, and on one whose buffer of \<open>4 * Dx * Dy\<close> bytes has a length that overflows
  an \<^verbatim>\<open>int\<close>; whether the machine has the memory for a buffer it accepts is outside the
  model. \<^verbatim>\<open>draw.Draw\<close> with \<^verbatim>\<open>draw.Over\<close> and no mask sets each channel of
  a destination pixel to \<open>uint8((d*a + s*m) / m >> 8)\<close>, where \<open>s\<close> is the source channel,
  \<open>m = 0xffff\<close> and \<open>d\<close> is the destination channel, here 0.
\<close>

definition drawOver :: "u32 \<Rightarrow> u8" where
  "drawOver sc = ucast (drop_bit 8 ((sc * 0xffff) div 0xffff))"

definition createMutableImage :: "StegImage \<Rightarrow> StegImage \<times> error option" where
  "createMutableImage s =
     (case imgLoaded s of
        None \<Rightarrow> (s, Some NoImageLoaded)
      | Some src \<Rightarrow>
          let r = imgBounds src
          in if mul3NonNeg 4 (goInt (MaxX r - MinX r)) (goInt (MaxY r - MinY r)) < 0
             then (s, Some RuntimePanic)
             else (s\<lparr>newImg := Some \<lparr>Rect = r,
                        Pix = (\<lambda>(x, y). if inRect x y r
                                 then (case imgAt src x y of (sr, sg, sb, sa) \<Rightarrow>
                                         \<lparr>colR = drawOver sr, colG = drawOver sg,
                                          colB = drawOver sb, colA = drawOver sa\<rparr>)
                                 else zeroRGBA)\<rparr>\<rparr>, None))"

text \<open>\<^verbatim>\<open>DoStegEmbed\<close>: the three steps in order, returning at the first error.\<close>

definition DoStegEmbed :: "StegImage \<Rightarrow> string \<Rightarrow> StegImage \<times> error option" where
  "DoStegEmbed s secretIn =
     (case createMutableImage s of
        (s1, Some e) \<Rightarrow> (s1, Some e)
      | (s1, None) \<Rightarrow>
          (case loadSecret s1 secretIn of
             (s2, Some e) \<Rightarrow> (s2, Some e)
           | (s2, None) \<Rightarrow> embedSecret s2))"

section \<open>Extraction\<close>

text \<open>\<^verbatim>\<open>getBitsFromRGB\<close>: 0 for an even value, 1 for an odd one, in the order given.\<close>

fun getBitsFromRGB :: "u32 list \<Rightarrow> int list" where
  "getBitsFromRGB [] = []"
| "getBitsFromRGB (v # values) = (if v mod 2 = 0 then 0 else 1) # getBitsFromRGB values"

text \<open>The inner loop of \<^verbatim>\<open>getSecretString\<close>: \<open>y\<close> runs up to \<open>bounds.Max.Y\<close> inclusive.\<close>

function scanColumn :: "image \<Rightarrow> rectangle \<Rightarrow> int \<Rightarrow> int \<Rightarrow> int list \<Rightarrow> int list" where
  "scanColumn img bounds x y bitsOut =
     (if y \<le> MaxY bounds then
        (case imgAt img x y of
           (r, g, b, a) \<Rightarrow> scanColumn img bounds x (y + 1) (bitsOut @ getBitsFromRGB [r, g, b]))
      else bitsOut)"
  by pat_completeness auto
termination
  by (relation "measure (\<lambda>(img, bounds, x, y, bitsOut). nat (MaxY bounds + 1 - y))") auto

declare scanColumn.simps [simp del]

text \<open>The outer loop: \<open>x\<close> runs up to \<open>bounds.Max.X\<close> inclusive.\<close>

function scanColumns :: "image \<Rightarrow> rectangle \<Rightarrow> int \<Rightarrow> int list \<Rightarrow> int list" where
  "scanColumns img bounds x bitsOut =
     (if x \<le> MaxX bounds then
        scanColumns img bounds (x + 1) (scanColumn img bounds x (MinY bounds) bitsOut)
      else bitsOut)"
  by pat_completeness auto
termination
  by (relation "measure (\<lambda>(img, bounds, x, bitsOut). nat (MaxX bounds + 1 - x))") auto

declare scanColumns.simps [simp del]

text \<open>
  \<^verbatim>\<open>getCharFromBits\<close>: bit \<open>7 - b\<close> of \<open>tmp\<close> is set when \<open>bits[b]\<close> is 1; the batch always has
  8 elements. \<open>string(tmp)\<close> is the UTF-8 encoding of the code point \<open>tmp\<close>, which is below
  256 here: one byte below 128, two bytes from 128 on.
\<close>

definition getCharFromBits :: "int list \<Rightarrow> string" where
  "getCharFromBits bits =
     (let tmp = foldl (\<lambda>tmp b. if bits ! b = 1 then tmp OR push_bit (7 - b) 1 else tmp)
                  (0 :: nat) [0..<8]
      in if tmp < 0x80 then [char_of tmp]
         else [char_of (0xC0 OR drop_bit 6 tmp), char_of (0x80 OR (tmp AND 0x3F))])"

text \<open>
  \<^verbatim>\<open>bitsToString\<close>. A Go slice is its elements and its capacity, and \<open>bits[i : i+8]\<close> is
  checked against the capacity, not the length: it panics when \<open>i + 8\<close> exceeds the
  capacity and otherwise reaches into the backing array behind the last element, which
  \<^verbatim>\<open>make\<close> and \<^verbatim>\<open>append\<close> left zeroed.
\<close>

function bitsToStringLoop :: "int list \<Rightarrow> nat \<Rightarrow> nat \<Rightarrow> string \<Rightarrow> error + string" where
  "bitsToStringLoop bits capacity i out =
     (if i < length bits then
        (if i + 8 \<le> capacity
         then bitsToStringLoop bits capacity (i + 8)
                (out @ getCharFromBits (take 8 (drop i (bits @ replicate (capacity - length bits) 0))))
         else Inl RuntimePanic)
      else Inr out)"
  by pat_completeness auto
termination
  by (relation "measure (\<lambda>(bits, capacity, i, out). length bits - i)") auto

declare bitsToStringLoop.simps [simp del]

definition bitsToString :: "int list \<Rightarrow> nat \<Rightarrow> error + string" where
  "bitsToString bits capacity = bitsToStringLoop bits capacity 0 []"

text \<open>
  The capacity of \<open>bitsOut\<close> after the scan. It starts at \<open>bounds.Max.X * bounds.Max.Y\<close>;
  \<^verbatim>\<open>append\<close> keeps the backing array while it is large enough and otherwise allocates a
  larger one, whose size the language leaves to the runtime: \<open>slack\<close> is the number of
  unused elements the runtime left behind the last bit in that case.
\<close>

definition bitsOutCap :: "nat \<Rightarrow> nat \<Rightarrow> nat \<Rightarrow> nat" where
  "bitsOutCap initial len slack = (if len \<le> initial then initial else len + slack)"

text \<open>
  \<^verbatim>\<open>getSecretString\<close>: a nil image is a nil dereference, a negative capacity
  \<open>bounds.Max.X * bounds.Max.Y\<close> makes \<^verbatim>\<open>make\<close> panic (whether the machine has the memory
  for a capacity that is not negative is outside the model); then the scan, the
  regrouping and the search for the sentinel.
\<close>

definition getSecretString :: "StegImage \<Rightarrow> nat \<Rightarrow> error + string" where
  "getSecretString s slack =
     (case imgLoaded s of
        None \<Rightarrow> Inl RuntimePanic
      | Some img \<Rightarrow>
          let bounds = imgBounds img
          in if goInt (MaxX bounds * MaxY bounds) < 0 then Inl RuntimePanic
             else
               let bitsOut = scanColumns img bounds (MinX bounds) [];
                   capacity = bitsOutCap (nat (goInt (MaxX bounds * MaxY bounds))) (length bitsOut) slack
               in (case bitsToString bitsOut capacity of
                     Inl e \<Rightarrow> Inl e
                   | Inr tmp \<Rightarrow>
                       if Contains tmp stopStegConst
                       then (case Split tmp stopStegConst of
                               [] \<Rightarrow> Inl RuntimePanic
                             | secret # _ \<Rightarrow> Inr secret)
                       else Inl SentinelNotFound))"

text \<open>\<^verbatim>\<open>DoStegExtract\<close>: retrieves the embedded secret from the loaded image.\<close>

definition DoStegExtract :: "StegImage \<Rightarrow> nat \<Rightarrow> error + string" where
  "DoStegExtract s slack =
     (case getSecretString s slack of
        Inl e \<Rightarrow> Inl e
      | Inr secretOut \<Rightarrow> Inr secretOut)"

section \<open>Positions and pixels of the embedding, in closed form\<close>

text \<open>
  What the loop body makes of a pixel when the next bit to write has index \<open>j\<close>: the
  pixel \<^verbatim>\<open>SetRGBA\<close> stores while bits remain, the pixel itself once they are used up.
\<close>

definition writePixel :: "int list \<Rightarrow> nat \<Rightarrow> rgba \<Rightarrow> rgba" where
  "writePixel bits j c = (if j < length bits then fst (embedPixel bits j (RGBA c)) else c)"

text \<open>
  The number of pixels the two loops of \<^verbatim>\<open>embedSecret\<close> pass before they reach \<open>(x, y)\<close>:
  whole columns of \<open>Max.Y - Min.Y\<close> pixels, then the pixels above in the same column.
\<close>

definition pixelIndex :: "rectangle \<Rightarrow> int \<Rightarrow> int \<Rightarrow> nat" where
  "pixelIndex r x y = nat ((x - MinX r) * (MaxY r - MinY r) + (y - MinY r))"

text \<open>
  The bits of a byte as the specification words them: 8 bits, most significant first.
\<close>

definition msbFirstBits :: "char \<Rightarrow> int list" where
  "msbFirstBits c = map (\<lambda>i. if bit (of_char c :: nat) (7 - i) then 1 else 0) [0..<8]"

text \<open>A string of the characters 0 and 1 only, and the number such a character stands for.\<close>

definition isBinary :: "string \<Rightarrow> bool" where
  "isBinary b \<longleftrightarrow> list_all (\<lambda>c. c = CHR ''0'' \<or> c = CHR ''1'') b"

definition digitBit :: "char \<Rightarrow> int" where
  "digitBit c = (if c = CHR ''1'' then 1 else 0)"

text \<open>The three bits the scan of \<^verbatim>\<open>getSecretString\<close> takes from a point.\<close>

definition pixelBits :: "image \<Rightarrow> int \<times> int \<Rightarrow> int list" where
  "pixelBits img p = (case imgAt img (fst p) (snd p) of (r, g, b, a) \<Rightarrow> getBitsFromRGB [r, g, b])"

text \<open>The number of bits that scan accumulates: three for each point of the inclusive ranges.\<close>

definition scanCount :: "rectangle \<Rightarrow> nat" where
  "scanCount b = 3 * (nat (MaxX b - MinX b + 1) * nat (MaxY b - MinY b + 1))"

text \<open>
  The character \<^verbatim>\<open>bitsToString\<close> makes of its \<open>j\<close>-th batch: the 8 elements from index
  \<open>8 * j\<close> of the backing array, the bits followed by the zeroed spare elements.
\<close>

definition batchChar :: "int list \<Rightarrow> nat \<Rightarrow> nat \<Rightarrow> string" where
  "batchChar bits capacity j =
     getCharFromBits (take 8 (drop (8 * j) (bits @ replicate (capacity - length bits) 0)))"

section \<open>Example inputs\<close>

text \<open>The zero value of \<^verbatim>\<open>StegImage\<close> (\<^verbatim>\<open>var cleanImg StegImage\<close>), and one holding a loaded image.\<close>

definition emptySteg :: StegImage where
  "emptySteg = \<lparr>imgLoaded = None, imgType = [], secretBits = [], newImg = None\<rparr>"

definition loaded :: "image \<Rightarrow> StegImage" where
  "loaded img = emptySteg\<lparr>imgLoaded := Some img\<rparr>"

text \<open>
  An all-black opaque image of \<open>w\<close> by \<open>h\<close> pixels with its corner at the origin, as a
  decoder returns it: black with full alpha inside the bounds, the zero colour outside.
\<close>

definition blackImage :: "int \<Rightarrow> int \<Rightarrow> image" where
  "blackImage w h =
     \<lparr>imgBounds = \<lparr>MinX = 0, MinY = 0, MaxX = w, MaxY = h\<rparr>,
      imgAt = (\<lambda>x y. if 0 \<le> x \<and> x < w \<and> 0 \<le> y \<and> y < h then (0, 0, 0, 0xffff)
                       else (0, 0, 0, 0))\<rparr>"

text \<open>A transparent \<^verbatim>\<open>image.RGBA\<close> of one pixel whose corner is not at the origin.\<close>

definition shiftedPixel :: rgba_image where
  "shiftedPixel = \<lparr>Rect = \<lparr>MinX = 1, MinY = 0, MaxX = 2, MaxY = 1\<rparr>, Pix = (\<lambda>p. zeroRGBA)\<rparr>"

text \<open>A \<^verbatim>\<open>StegImage\<close> about to embed four bits into that image.\<close>

definition fourBits :: StegImage where
  "fourBits = emptySteg\<lparr>secretBits := [1, 1, 1, 1], newImg := Some shiftedPixel\<rparr>"

text \<open>
  An opaque \<^verbatim>\<open>image.RGBA\<close> of 2 by 2 pixels at the origin, every pixel (0x10, 0x21, 0x32),
  and a \<^verbatim>\<open>StegImage\<close> about to embed seven bits into it.
\<close>

definition twoByTwo :: rgba_image where
  "twoByTwo = \<lparr>Rect = \<lparr>MinX = 0, MinY = 0, MaxX = 2, MaxY = 2\<rparr>,
               Pix = (\<lambda>p. \<lparr>colR = 0x10, colG = 0x21, colB = 0x32, colA = 0xff\<rparr>)\<rparr>"

definition sevenBits :: StegImage where
  "sevenBits = emptySteg\<lparr>secretBits := [1, 0, 1, 1, 0, 1, 1], newImg := Some twoByTwo\<rparr>"

text \<open>The euro sign, U+20AC, in UTF-8.\<close>

definition euroSign :: string where
  "euroSign = [CHR 0xE2, CHR 0x82, CHR 0xAC]"

text \<open>\<^verbatim>\<open>Rectangle.Dx()\<close> and \<^verbatim>\<open>Rectangle.Dy()\<close>: width and height.\<close>

definition Dx :: "rectangle \<Rightarrow> int" where
  "Dx r = MaxX r - MinX r"

definition Dy :: "rectangle \<Rightarrow> int" where
  "Dy r = MaxY r - MinY r"

section \<open>Machine integers\<close>

text \<open>
  A value within the 64 bits of an \<^verbatim>\<open>int\<close> is not changed by the wrap; the product of
  \<open>2^32\<close> with itself wraps to 0.
\<close>

lemma goInt_id: "- (2 ^ 63) \<le> k \<Longrightarrow> k < 2 ^ 63 \<Longrightarrow> goInt k = k"
  unfolding goInt_def by (simp add: sint_sbintrunc' signed_take_bit_int_eq_self)

lemma goInt_wraps: "goInt (2 ^ 32 * 2 ^ 32) = 0"
  unfolding goInt_def by simp

lemma mul3NonNeg_small:
  assumes "0 \<le> x" and "0 \<le> y" and "0 \<le> z" and "x * y * z < 2 ^ 63" and "x * y < 2 ^ 64"
  shows "mul3NonNeg x y z = x * y * z"
  using assms by (simp add: mul3NonNeg_def)

section \<open>Channel arithmetic\<close>

text \<open>
  The 16-bit value \<open>c | c << 8\<close> that \<^verbatim>\<open>RGBA()\<close> reports for an 8-bit channel \<open>c\<close> gives \<open>c\<close>
  back under \<open>uint8(_)\<close> and under \<open>uint8(_ / 0x101)\<close>, and has the parity of \<open>c\<close>.
\<close>

lemma word_of_int_uint_u32: "(word_of_int (uint (r :: u32)) :: u8) = ucast r"
  by (rule ucast_eq [symmetric])

lemma ucast_dup: "(ucast ((ucast (c :: u8) :: u32) OR push_bit 8 (ucast c)) :: u8) = c"
  by (rule bit_word_eqI) (auto simp: bit_simps)

lemma dup_eq_add:
  "((ucast (c :: u8) :: u32) OR push_bit 8 (ucast c)) = ucast c + push_bit 8 (ucast c)"
  by (rule disjunctive_add_eq_or [symmetric])
    (auto simp: bit_eq_iff bit_simps dest: bit_imp_le_length)

lemma unat_dup: "unat ((ucast (c :: u8) :: u32) OR push_bit 8 (ucast c)) = unat c * 257"
proof -
  have c: "unat c < 256"
    using unsigned_less [of c, where 'a = nat] by simp
  have u: "unat (ucast c :: u32) = unat c"
    by (simp add: unsigned_ucast_eq take_bit_nat_eq_self_iff) (use c in simp)
  have p: "unat (push_bit 8 (ucast c :: u32)) = unat c * 256"
    using c u by (simp add: push_bit_eq_mult unat_word_ariths)
  show ?thesis
    unfolding dup_eq_add using c u p by (simp add: unat_word_ariths)
qed

lemma ucast_dup_div:
  "(ucast (((ucast (c :: u8) :: u32) OR push_bit 8 (ucast c)) div 0x101) :: u8) = c"
proof -
  have "unat (((ucast c :: u32) OR push_bit 8 (ucast c)) div 0x101) = unat c"
    by (simp add: unat_div unat_dup)
  then have "unat (ucast (((ucast c :: u32) OR push_bit 8 (ucast c)) div 0x101) :: u8) = unat c"
    using unsigned_less [of c, where 'a = nat]
    by (simp add: unsigned_ucast_eq take_bit_nat_eq_self_iff)
  then show ?thesis
    by (rule unsigned_word_eqI)
qed

lemma dup_even:
  "((ucast (c :: u8) :: u32) OR push_bit 8 (ucast c)) mod 2 = 0 \<longleftrightarrow> \<not> bit c 0"
proof -
  have "((ucast c :: u32) OR push_bit 8 (ucast c)) mod 2 = 0
          \<longleftrightarrow> \<not> bit ((ucast c :: u32) OR push_bit 8 (ucast c)) 0"
    by (simp only: bit_0 even_iff_mod_2_eq_zero not_not)
  also have "\<dots> \<longleftrightarrow> \<not> bit c 0"
    by (simp add: bit_simps)
  finally show ?thesis .
qed

lemma manipulateLSB_bit0: "bit (manipulateLSB i b) 0 \<longleftrightarrow> b \<noteq> 0"
  by (simp add: manipulateLSB_def bit_simps Let_def)

lemma manipulateLSB_drop:
  "drop_bit 1 (manipulateLSB i b) = drop_bit 1 (word_of_int i :: u8)"
  by (rule bit_word_eqI) (auto simp: bit_simps manipulateLSB_def Let_def)

lemma uint_half: "uint (drop_bit 1 (w :: u8)) = uint w div 2"
  by (simp add: drop_bit_eq_div uint_div)

lemma manipulateLSB_diff: "\<bar>uint (manipulateLSB i b) - uint (word_of_int i :: u8)\<bar> \<le> 1"
proof -
  have "uint (manipulateLSB i b) div 2 = uint (word_of_int i :: u8) div 2"
    using manipulateLSB_drop [of i b] by (simp only: uint_half [symmetric])
  then show ?thesis by presburger
qed

section \<open>Embedding without a loaded image\<close>

text \<open>
  C9. With no image loaded, \<^verbatim>\<open>DoStegEmbed\<close> returns the error "no image loaded" whatever the
  secret and whatever the other fields hold, and leaves the whole \<^verbatim>\<open>StegImage\<close> as it was:
  the refusal comes from \<^verbatim>\<open>createMutableImage\<close>, the first step, so no capacity is
  checked, no secret is serialised into \<open>secretBits\<close> and no pixel of \<open>newImg\<close> is written.
\<close>

theorem DoStegEmbed_no_image_loaded:
  assumes "imgLoaded s = None"
  shows "createMutableImage s = (s, Some NoImageLoaded)
         \<and> DoStegEmbed s secretIn = (s, Some NoImageLoaded)"
  using assms by (simp add: createMutableImage_def DoStegEmbed_def)

theorem DoStegEmbed_no_image_loaded_witness:
  "createMutableImage emptySteg = (emptySteg, Some NoImageLoaded)
   \<and> DoStegEmbed emptySteg ''Karl'' = (emptySteg, Some NoImageLoaded)"
  using DoStegEmbed_no_image_loaded [of emptySteg "''Karl''"]
  by (simp add: emptySteg_def)

section \<open>The capacity check\<close>

text \<open>
  What the check of \<^verbatim>\<open>embedSecret\<close> computes. It refuses with "not enough pixels to hide
  secret" exactly when the number of bits exceeds \<open>bounds.Max.X * bounds.Max.Y * 3\<close>, a
  product of \<^verbatim>\<open>int\<close>, and then returns the \<^verbatim>\<open>StegImage\<close>, and so every pixel of \<open>newImg\<close>, as
  it was: the check precedes the loops.
\<close>

lemma embedSecret_check:
  assumes "newImg s = Some img"
  shows "snd (embedSecret s) = Some CapacityExceeded
           \<longleftrightarrow> goInt (goInt (MaxX (Rect img) * MaxY (Rect img)) * 3) < int (length (secretBits s))"
    and "snd (embedSecret s) = Some CapacityExceeded \<Longrightarrow> fst (embedSecret s) = s"
  using assms by (auto simp: embedSecret_def Let_def split: if_splits)

text \<open>
  For a buffer whose minimum bound is the origin, as a decoded image has it, and whose
  capacity fits an \<^verbatim>\<open>int\<close>, that product is width * height * 3. The 4 by 4 black image
  with the secret "Karl" carries 136 bits against 48 and is refused.
\<close>

lemma capacity_at_origin:
  assumes "MinX r = 0" and "MinY r = 0" and "0 \<le> MaxX r" and "0 \<le> MaxY r"
    and "MaxX r * MaxY r * 3 < 2 ^ 63"
  shows "goInt (goInt (MaxX r * MaxY r) * 3) = Dx r * Dy r * 3"
proof -
  have p: "0 \<le> MaxX r * MaxY r"
    using assms(3,4) by simp
  with assms(5) have "goInt (MaxX r * MaxY r) = MaxX r * MaxY r"
    by (intro goInt_id) linarith+
  moreover have "goInt (MaxX r * MaxY r * 3) = MaxX r * MaxY r * 3"
    using p assms(5) by (intro goInt_id) linarith+
  ultimately show ?thesis
    using assms(1,2) by (simp add: Dx_def Dy_def)
qed

lemma four_by_four_refused:
  "length (secretBits (fst (loadSecret emptySteg ''Karl''))) = 136"
  "Dx (imgBounds (blackImage 4 4)) * Dy (imgBounds (blackImage 4 4)) * 3 = 48"
  "DoStegEmbed (loaded (blackImage 4 4)) ''Karl'' = (s', e) \<Longrightarrow> e = Some CapacityExceeded"
proof -
  show "length (secretBits (fst (loadSecret emptySteg ''Karl''))) = 136"
    by code_simp
  show "Dx (imgBounds (blackImage 4 4)) * Dy (imgBounds (blackImage 4 4)) * 3 = 48"
    by code_simp
  have "snd (DoStegEmbed (loaded (blackImage 4 4)) ''Karl'') = Some CapacityExceeded"
    by code_simp
  then show "DoStegEmbed (loaded (blackImage 4 4)) ''Karl'' = (s', e) \<Longrightarrow> e = Some CapacityExceeded"
    by simp
qed

text \<open>
  C3. The capacity of a buffer is width * height * 3, and the check is there to compare
  the number of bits with it ("Check if we can store the secret message"); it
  multiplies the maximum bounds where the width and the height are meant. The
  transparent buffer of one pixel at (1, 0) has width 1 and height 1, so 3 usable
  channels. Four bits are not refused, 4 not being above 2 * 1 * 3: \<^verbatim>\<open>embedSecret\<close>
  returns no error, writes the first three bits into red, green and blue of the pixel
  and drops the fourth.
\<close>

theorem embedSecret_capacity_shifted:
  "Dx (Rect shiftedPixel) * Dy (Rect shiftedPixel) * 3 = 3
   \<and> length (secretBits fourBits) = 4
   \<and> snd (embedSecret fourBits) = None
   \<and> map_option (\<lambda>img. RGBAAt img 1 0) (newImg (fst (embedSecret fourBits)))
       = Some \<lparr>colR = 1, colG = 1, colB = 1, colA = 0\<rparr>"
  by code_simp

section \<open>The embedding in closed form\<close>

lemma manipulateLSB_RGBA:
  "manipulateLSB (uint ((ucast (c :: u8) :: u32) OR push_bit 8 (ucast c))) b = manipulateLSB (uint c) b"
  by (simp add: manipulateLSB_def word_of_int_uint_u32 ucast_dup)

lemma embedPixel_snd: "idx < length bits \<Longrightarrow> snd (embedPixel bits idx c) = min (length bits) (idx + 3)"
  by (cases c) (auto simp: embedPixel_def Let_def)

lemma embedPixel_fst:
  "fst (embedPixel bits idx (RGBA p)) =
     \<lparr>colR = manipulateLSB (uint (colR p)) (bits ! idx),
      colG = (if idx + 1 < length bits then manipulateLSB (uint (colG p)) (bits ! (idx + 1)) else colG p),
      colB = (if idx + 2 < length bits then manipulateLSB (uint (colB p)) (bits ! (idx + 2)) else colB p),
      colA = colA p\<rparr>"
  by (auto simp: embedPixel_def RGBA_def Let_def manipulateLSB_RGBA ucast_dup ucast_dup_div)

lemma writePixel_past: "length bits \<le> j \<Longrightarrow> writePixel bits j c = c"
  by (simp add: writePixel_def)

lemma embedColumn_closed:
  "k = nat (MaxY bounds - y) \<Longrightarrow> Rect img = bounds \<Longrightarrow> MinX bounds \<le> x \<Longrightarrow> x < MaxX bounds
   \<Longrightarrow> MinY bounds \<le> y \<Longrightarrow>
   \<exists>img'. embedColumn bits bounds x y (idx, img)
             = ((if idx < length bits then min (length bits) (idx + 3 * k) else idx), img')
      \<and> Rect img' = bounds
      \<and> (\<forall>x' y'. Pix img' (x', y') =
            (if x' = x \<and> y \<le> y' \<and> y' < MaxY bounds
             then writePixel bits (idx + 3 * nat (y' - y)) (Pix img (x', y'))
             else Pix img (x', y')))"
proof (induction k arbitrary: y idx img)
  case 0
  then have "\<not> y < MaxY bounds" by simp
  with "0.prems" show ?case
    by (auto simp add: embedColumn.simps)
next
  case (Suc k)
  then have y: "y < MaxY bounds" and k: "k = nat (MaxY bounds - (y + 1))" by simp_all
  show ?case
  proof (cases "idx < length bits")
    case False
    then show ?thesis
      using y Suc.prems by (simp add: embedColumn.simps writePixel_past)
  next
    case True
    obtain c i where ci: "embedPixel bits idx (RGBA (RGBAAt img x y)) = (c, i)"
      by (cases "embedPixel bits idx (RGBA (RGBAAt img x y))")
    have inr: "inRect x y (Rect img)"
      using Suc.prems y by (simp add: inRect_def)
    then have at: "RGBAAt img x y = Pix img (x, y)"
      by (simp add: RGBAAt_def)
    have i: "i = min (length bits) (idx + 3)"
      using embedPixel_snd [OF True, of "RGBA (RGBAAt img x y)"] ci by simp
    have c: "c = writePixel bits idx (Pix img (x, y))"
      using ci True at by (simp add: writePixel_def)
    let ?img1 = "SetRGBA img x y c"
    have r1: "Rect ?img1 = bounds"
      using Suc.prems by (simp add: SetRGBA_def)
    have p1: "Pix ?img1 = (Pix img)((x, y) := c)"
      using inr by (simp add: SetRGBA_def)
    have step: "embedColumn bits bounds x y (idx, img) = embedColumn bits bounds x (y + 1) (i, ?img1)"
      using y True ci by (subst embedColumn.simps) simp
    from Suc.IH [OF k r1 \<open>MinX bounds \<le> x\<close> \<open>x < MaxX bounds\<close>, of i] Suc.prems
    obtain img' where
      e: "embedColumn bits bounds x (y + 1) (i, ?img1)
            = ((if i < length bits then min (length bits) (i + 3 * k) else i), img')"
      and r: "Rect img' = bounds"
      and p: "\<forall>x' y'. Pix img' (x', y') =
            (if x' = x \<and> y + 1 \<le> y' \<and> y' < MaxY bounds
             then writePixel bits (i + 3 * nat (y' - (y + 1))) (Pix ?img1 (x', y'))
             else Pix ?img1 (x', y'))"
      by auto
    have idx': "(if i < length bits then min (length bits) (i + 3 * k) else i)
                  = min (length bits) (idx + 3 * Suc k)"
      using i True by (auto simp: min_def)
    have pix: "Pix img' (x', y') =
            (if x' = x \<and> y \<le> y' \<and> y' < MaxY bounds
             then writePixel bits (idx + 3 * nat (y' - y)) (Pix img (x', y'))
             else Pix img (x', y'))" for x' y'
    proof (cases "x' = x \<and> y + 1 \<le> y' \<and> y' < MaxY bounds")
      case True
      then have ne: "(x', y') \<noteq> (x, y)" by auto
      have "writePixel bits (i + 3 * nat (y' - (y + 1))) (Pix img (x', y'))
              = writePixel bits (idx + 3 * nat (y' - y)) (Pix img (x', y'))"
      proof (cases "idx + 3 \<le> length bits")
        case True
        then have "i = idx + 3" using i by simp
        moreover have "nat (y' - y) = Suc (nat (y' - (y + 1)))"
          using \<open>x' = x \<and> y + 1 \<le> y' \<and> y' < MaxY bounds\<close> by linarith
        ultimately have "i + 3 * nat (y' - (y + 1)) = idx + 3 * nat (y' - y)"
          by simp
        then show ?thesis by simp
      next
        case False
        then have "i = length bits" using i by simp
        moreover have "0 < nat (y' - y)"
          using \<open>x' = x \<and> y + 1 \<le> y' \<and> y' < MaxY bounds\<close> by linarith
        ultimately show ?thesis
          using False by (simp add: writePixel_past)
      qed
      with True ne p p1 show ?thesis by simp
    next
      case False
      show ?thesis
      proof (cases "x' = x \<and> y' = y")
        case True
        with p p1 c show ?thesis using y by simp
      next
        case False2: False
        with False p p1 show ?thesis by auto
      qed
    qed
    from step e r pix idx' True show ?thesis by simp
  qed
qed


lemma column_offset:
  fixes d h r :: int
  assumes "1 \<le> d" "0 < h" "0 \<le> r"
  shows "nat h + nat ((d - 1) * h + r) = nat (d * h + r)"
proof -
  have "0 \<le> (d - 1) * h" using assms by simp
  then have "nat h + nat ((d - 1) * h + r) = nat (h + ((d - 1) * h + r))"
    using assms by (simp add: nat_add_distrib)
  also have "h + ((d - 1) * h + r) = d * h + r"
    by (simp add: algebra_simps)
  finally show ?thesis .
qed

lemma column_offset_le:
  fixes d h r :: int
  assumes "1 \<le> d" "0 < h" "0 \<le> r"
  shows "nat h \<le> nat (d * h + r)"
  using column_offset [OF assms] by linarith

lemma embedColumns_closed:
  "k = nat (MaxX bounds - x) \<Longrightarrow> Rect img = bounds \<Longrightarrow> MinX bounds \<le> x \<Longrightarrow>
   \<exists>idx' img'. embedColumns bits bounds x (idx, img) = (idx', img')
      \<and> Rect img' = bounds
      \<and> (\<forall>x' y'. Pix img' (x', y') =
            (if x \<le> x' \<and> x' < MaxX bounds \<and> MinY bounds \<le> y' \<and> y' < MaxY bounds
             then writePixel bits
                    (idx + 3 * nat ((x' - x) * (MaxY bounds - MinY bounds) + (y' - MinY bounds)))
                    (Pix img (x', y'))
             else Pix img (x', y')))"
proof (induction k arbitrary: x idx img)
  case 0
  then have "\<not> x < MaxX bounds" by simp
  with "0.prems" show ?case
    by (auto simp add: embedColumns.simps)
next
  case (Suc k)
  then have x: "x < MaxX bounds" and k: "k = nat (MaxX bounds - (x + 1))" by simp_all
  let ?h = "MaxY bounds - MinY bounds"
  let ?idx1 = "if idx < length bits then min (length bits) (idx + 3 * nat ?h) else idx"
  from embedColumn_closed [OF refl \<open>Rect img = bounds\<close> \<open>MinX bounds \<le> x\<close> x order_refl, of bits idx]
  obtain img1 where
    e1: "embedColumn bits bounds x (MinY bounds) (idx, img) = (?idx1, img1)"
    and r1: "Rect img1 = bounds"
    and p1: "\<forall>x' y'. Pix img1 (x', y') =
            (if x' = x \<and> MinY bounds \<le> y' \<and> y' < MaxY bounds
             then writePixel bits (idx + 3 * nat (y' - MinY bounds)) (Pix img (x', y'))
             else Pix img (x', y'))"
    by auto
  show ?case
  proof (cases "length bits \<le> ?idx1")
    case True
    then have res: "embedColumns bits bounds x (idx, img) = (?idx1, img1)"
      using x e1 by (subst embedColumns.simps) (simp add: Let_def)
    have pix: "Pix img1 (x', y') =
            (if x \<le> x' \<and> x' < MaxX bounds \<and> MinY bounds \<le> y' \<and> y' < MaxY bounds
             then writePixel bits (idx + 3 * nat ((x' - x) * ?h + (y' - MinY bounds)))
                    (Pix img (x', y'))
             else Pix img (x', y'))" for x' y'
    proof (cases "x < x' \<and> x' < MaxX bounds \<and> MinY bounds \<le> y' \<and> y' < MaxY bounds")
      case inside: True
      then have "nat ?h \<le> nat ((x' - x) * ?h + (y' - MinY bounds))"
        by (intro column_offset_le) auto
      moreover have "length bits \<le> idx + 3 * nat ?h"
        using True by (auto split: if_splits)
      ultimately have "length bits \<le> idx + 3 * nat ((x' - x) * ?h + (y' - MinY bounds))"
        by linarith
      then show ?thesis
        using inside p1 by (simp add: writePixel_past)
    next
      case False
      then show ?thesis
        using p1 x by (cases "x' = x") auto
    qed
    from res r1 pix show ?thesis by blast
  next
    case False
    then have lt: "idx < length bits" and idx1: "?idx1 = idx + 3 * nat ?h"
      by (auto split: if_splits simp: min_def)
    from False have res: "embedColumns bits bounds x (idx, img)
                            = embedColumns bits bounds (x + 1) (?idx1, img1)"
      using x e1 by (subst embedColumns.simps) (simp add: Let_def)
    from Suc.IH [OF k r1, of ?idx1] \<open>MinX bounds \<le> x\<close>
    obtain idx' img' where
      e: "embedColumns bits bounds (x + 1) (?idx1, img1) = (idx', img')"
      and r: "Rect img' = bounds"
      and p: "\<forall>x' y'. Pix img' (x', y') =
            (if x + 1 \<le> x' \<and> x' < MaxX bounds \<and> MinY bounds \<le> y' \<and> y' < MaxY bounds
             then writePixel bits
                    (?idx1 + 3 * nat ((x' - (x + 1)) * ?h + (y' - MinY bounds)))
                    (Pix img1 (x', y'))
             else Pix img1 (x', y'))"
      by auto
    have pix: "Pix img' (x', y') =
            (if x \<le> x' \<and> x' < MaxX bounds \<and> MinY bounds \<le> y' \<and> y' < MaxY bounds
             then writePixel bits (idx + 3 * nat ((x' - x) * ?h + (y' - MinY bounds)))
                    (Pix img (x', y'))
             else Pix img (x', y'))" for x' y'
    proof (cases "x + 1 \<le> x' \<and> x' < MaxX bounds \<and> MinY bounds \<le> y' \<and> y' < MaxY bounds")
      case inside: True
      then have c: "nat ?h + nat ((x' - x - 1) * ?h + (y' - MinY bounds))
                   = nat ((x' - x) * ?h + (y' - MinY bounds))"
        by (intro column_offset) auto
      have d: "x' - (x + 1) = x' - x - 1" by simp
      have "?idx1 + 3 * nat ((x' - (x + 1)) * ?h + (y' - MinY bounds))
                  = idx + 3 * nat ((x' - x) * ?h + (y' - MinY bounds))"
        unfolding idx1 d using c by linarith
      moreover have "Pix img1 (x', y') = Pix img (x', y')"
        using inside p1 by simp
      ultimately show ?thesis
        using inside p by simp
    next
      case False
      then show ?thesis
        using p p1 x by (cases "x' = x") auto
    qed
    from res e r pix show ?thesis by simp
  qed
qed

lemma embedSecret_closed:
  assumes "newImg s = Some img"
    and "\<not> goInt (goInt (MaxX (Rect img) * MaxY (Rect img)) * 3) < int (length (secretBits s))"
  shows "\<exists>img'. embedSecret s = (s\<lparr>newImg := Some img'\<rparr>, None)
      \<and> Rect img' = Rect img
      \<and> (\<forall>x y. RGBAAt img' x y =
            (if inRect x y (Rect img)
             then writePixel (secretBits s) (3 * pixelIndex (Rect img) x y) (RGBAAt img x y)
             else RGBAAt img x y))"
proof -
  from embedColumns_closed [OF refl refl order_refl, of "secretBits s" img 0]
  obtain idx' img' where
    e: "embedColumns (secretBits s) (Rect img) (MinX (Rect img)) (0, img) = (idx', img')"
    and r: "Rect img' = Rect img"
    and p: "\<forall>x' y'. Pix img' (x', y') =
            (if MinX (Rect img) \<le> x' \<and> x' < MaxX (Rect img)
                \<and> MinY (Rect img) \<le> y' \<and> y' < MaxY (Rect img)
             then writePixel (secretBits s)
                    (0 + 3 * nat ((x' - MinX (Rect img)) * (MaxY (Rect img) - MinY (Rect img))
                                   + (y' - MinY (Rect img))))
                    (Pix img (x', y'))
             else Pix img (x', y'))"
    by blast
  have "embedSecret s = (s\<lparr>newImg := Some img'\<rparr>, None)"
    using assms e by (simp add: embedSecret_def Let_def)
  moreover have "RGBAAt img' x y =
            (if inRect x y (Rect img)
             then writePixel (secretBits s) (3 * pixelIndex (Rect img) x y) (RGBAAt img x y)
             else RGBAAt img x y)" for x y
    using p r by (simp add: RGBAAt_def inRect_def pixelIndex_def)
  ultimately show ?thesis using r by blast
qed

lemma product_upto_nth:
  assumes "k < length (List.product [a..b - 1] [c..d - 1])"
  shows "List.product [a..b - 1] [c..d - 1] ! k = (a + int (k div nat (d - c)), c + int (k mod nat (d - c)))"
    and "a + int (k div nat (d - c)) < b" and "c + int (k mod nat (d - c)) < d"
    and "nat (int (k div nat (d - c)) * (d - c) + int (k mod nat (d - c))) = k"
proof -
  let ?h = "nat (d - c)"
  from assms have k: "k < nat (b - a) * ?h" by simp
  then have h: "0 < ?h" by (cases "?h") auto
  from k have q: "k div ?h < nat (b - a)"
    by (simp add: less_mult_imp_div_less)
  from h have m: "k mod ?h < ?h" by simp
  from q show x: "a + int (k div ?h) < b" by linarith
  from m show y: "c + int (k mod ?h) < d" by linarith
  from x y have "[a..b - 1] ! (k div ?h) = a + int (k div ?h)"
    and "[c..d - 1] ! (k mod ?h) = c + int (k mod ?h)"
    by simp_all
  with k show "List.product [a..b - 1] [c..d - 1] ! k
                 = (a + int (k div ?h), c + int (k mod ?h))"
    by (simp add: product_nth)
  have e1: "int ?h = d - c" using h by simp
  have "int k = int (k div ?h * ?h + k mod ?h)" by simp
  also have "\<dots> = int (k div ?h) * int ?h + int (k mod ?h)"
    by (simp only: of_nat_add of_nat_mult)
  also have "\<dots> = int (k div ?h) * (d - c) + int (k mod ?h)"
    by (simp only: e1)
  finally have "int k = int (k div ?h) * (d - c) + int (k mod ?h)" .
  then show "nat (int (k div ?h) * (d - c) + int (k mod ?h)) = k"
    by (metis nat_int)
qed

lemma embedSecret_result:
  assumes "newImg s = Some img" and "embedSecret s = (s', err)" and "newImg s' = Some img'"
  shows "Rect img' = Rect img"
    and "RGBAAt img' x y =
            (if err = None \<and> inRect x y (Rect img)
             then writePixel (secretBits s) (3 * pixelIndex (Rect img) x y) (RGBAAt img x y)
             else RGBAAt img x y)"
proof -
  show "Rect img' = Rect img"
  proof (cases "goInt (goInt (MaxX (Rect img) * MaxY (Rect img)) * 3) < int (length (secretBits s))")
    case True
    with assms show ?thesis by (simp add: embedSecret_def Let_def)
  next
    case False
    from embedSecret_closed [OF assms(1) False] assms show ?thesis by auto
  qed
  show "RGBAAt img' x y =
            (if err = None \<and> inRect x y (Rect img)
             then writePixel (secretBits s) (3 * pixelIndex (Rect img) x y) (RGBAAt img x y)
             else RGBAAt img x y)"
  proof (cases "goInt (goInt (MaxX (Rect img) * MaxY (Rect img)) * 3) < int (length (secretBits s))")
    case True
    with assms show ?thesis by (auto simp add: embedSecret_def Let_def)
  next
    case False
    from embedSecret_closed [OF assms(1) False] assms show ?thesis by auto
  qed
qed

lemma writePixel_channels:
  "colR (writePixel bits j p) = (if j < length bits then manipulateLSB (uint (colR p)) (bits ! j) else colR p)"
  "colG (writePixel bits j p) = (if j + 1 < length bits then manipulateLSB (uint (colG p)) (bits ! (j + 1)) else colG p)"
  "colB (writePixel bits j p) = (if j + 2 < length bits then manipulateLSB (uint (colB p)) (bits ! (j + 2)) else colB p)"
  "colA (writePixel bits j p) = colA p"
  by (simp_all add: writePixel_def embedPixel_fst)

lemma manipulateLSB_near: "\<bar>uint (manipulateLSB (uint (c :: u8)) b) - uint c\<bar> \<le> 1"
  using manipulateLSB_diff [of "uint c" b] by simp

lemma embedSecret_keeps_newImg:
  "newImg s = Some img \<Longrightarrow> newImg (fst (embedSecret s)) \<noteq> None"
  by (simp add: embedSecret_def Let_def)

lemma sevenBits_embedded:
  "newImg sevenBits = Some twoByTwo"
  "embedSecret sevenBits = (fst (embedSecret sevenBits), None)"
  "newImg (fst (embedSecret sevenBits)) = Some (the (newImg (fst (embedSecret sevenBits))))"
proof -
  show a: "newImg sevenBits = Some twoByTwo"
    by (simp add: sevenBits_def emptySteg_def)
  have "snd (embedSecret sevenBits) = None"
    by code_simp
  then show "embedSecret sevenBits = (fst (embedSecret sevenBits), None)"
    by (metis prod.collapse)
  show "newImg (fst (embedSecret sevenBits)) = Some (the (newImg (fst (embedSecret sevenBits))))"
    using embedSecret_keeps_newImg [OF a] by simp
qed

section \<open>What the embedding writes\<close>

text \<open>
  C4. The two loops visit the points of the rectangle column by column: the \<open>k\<close>-th point
  (from 0) of the product of \<open>[Min.X .. Max.X - 1]\<close> and \<open>[Min.Y .. Max.Y - 1]\<close>, \<open>x\<close> outer
  and \<open>y\<close> inner, both ascending. After a successful \<^verbatim>\<open>embedSecret\<close> that pixel carries bit
  \<open>3k\<close> in red, bit \<open>3k + 1\<close> in green and bit \<open>3k + 2\<close> in blue, each written by
  \<^verbatim>\<open>manipulateLSB\<close> if the bit exists; a channel whose bit does not exist equals the
  source, so does every pixel from the end of the bits on, alpha always, and every
  point outside the rectangle.
\<close>

theorem embedSecret_traversal:
  assumes "newImg s = Some img" and "embedSecret s = (s', None)" and "newImg s' = Some img'"
    and "k < length (List.product [MinX (Rect img)..MaxX (Rect img) - 1]
                                  [MinY (Rect img)..MaxY (Rect img) - 1])"
    and "List.product [MinX (Rect img)..MaxX (Rect img) - 1]
                      [MinY (Rect img)..MaxY (Rect img) - 1] ! k = (x, y)"
  shows "colR (RGBAAt img' x y) =
           (if 3 * k < length (secretBits s)
            then manipulateLSB (uint (colR (RGBAAt img x y))) (secretBits s ! (3 * k))
            else colR (RGBAAt img x y))
       \<and> colG (RGBAAt img' x y) =
           (if 3 * k + 1 < length (secretBits s)
            then manipulateLSB (uint (colG (RGBAAt img x y))) (secretBits s ! (3 * k + 1))
            else colG (RGBAAt img x y))
       \<and> colB (RGBAAt img' x y) =
           (if 3 * k + 2 < length (secretBits s)
            then manipulateLSB (uint (colB (RGBAAt img x y))) (secretBits s ! (3 * k + 2))
            else colB (RGBAAt img x y))
       \<and> colA (RGBAAt img' x y) = colA (RGBAAt img x y)
       \<and> (length (secretBits s) \<le> 3 * k \<longrightarrow> RGBAAt img' x y = RGBAAt img x y)
       \<and> (\<forall>u v. \<not> inRect u v (Rect img) \<longrightarrow> RGBAAt img' u v = RGBAAt img u v)"
proof -
  let ?r = "Rect img"
  from product_upto_nth [OF assms(4)] assms(5)
  have x: "x = MinX ?r + int (k div nat (MaxY ?r - MinY ?r))"
    and y: "y = MinY ?r + int (k mod nat (MaxY ?r - MinY ?r))"
    and xb: "x < MaxX ?r" and yb: "y < MaxY ?r"
    and idx: "nat (int (k div nat (MaxY ?r - MinY ?r)) * (MaxY ?r - MinY ?r)
                    + int (k mod nat (MaxY ?r - MinY ?r))) = k"
    by simp_all
  have inr: "inRect x y ?r"
    using x y xb yb by (simp add: inRect_def)
  have pi: "pixelIndex ?r x y = k"
    using idx by (simp add: pixelIndex_def x y)
  have at: "RGBAAt img' x y = writePixel (secretBits s) (3 * k) (RGBAAt img x y)"
    using embedSecret_result(2) [OF assms(1-3), of x y] inr pi by simp
  have out: "\<not> inRect u v ?r \<Longrightarrow> RGBAAt img' u v = RGBAAt img u v" for u v
    using embedSecret_result(2) [OF assms(1-3), of u v] by simp
  show ?thesis
    unfolding at using out by (simp add: writePixel_channels writePixel_past)
qed

theorem embedSecret_traversal_witness:
  "colR (RGBAAt (the (newImg (fst (embedSecret sevenBits)))) 1 0) = 0x11
   \<and> colG (RGBAAt (the (newImg (fst (embedSecret sevenBits)))) 1 0) = 0x21
   \<and> colB (RGBAAt (the (newImg (fst (embedSecret sevenBits)))) 1 0) = 0x32
   \<and> colA (RGBAAt (the (newImg (fst (embedSecret sevenBits)))) 1 0) = 0xff"
proof -
  have k: "2 < length (List.product [MinX (Rect twoByTwo)..MaxX (Rect twoByTwo) - 1]
                                    [MinY (Rect twoByTwo)..MaxY (Rect twoByTwo) - 1])"
    by (simp add: twoByTwo_def)
  have p: "List.product [MinX (Rect twoByTwo)..MaxX (Rect twoByTwo) - 1]
                        [MinY (Rect twoByTwo)..MaxY (Rect twoByTwo) - 1] ! 2 = (1, 0)"
    by code_simp
  have bits: "secretBits sevenBits = [1, 0, 1, 1, 0, 1, 1]"
    by (simp add: sevenBits_def emptySteg_def)
  have src: "RGBAAt twoByTwo 1 0 = \<lparr>colR = 0x10, colG = 0x21, colB = 0x32, colA = 0xff\<rparr>"
    by (simp add: RGBAAt_def twoByTwo_def inRect_def)
  have m: "manipulateLSB 16 1 = 17"
    by (simp add: manipulateLSB_def)
  from embedSecret_traversal [OF sevenBits_embedded k p]
  show ?thesis
    by (simp add: bits src m)
qed

text \<open>
  C5. \<^verbatim>\<open>manipulateLSB\<close> makes the lowest bit of \<open>uint8(i)\<close> equal to the payload bit (0
  clears it, 1 sets it) and keeps the seven bits above it; and whatever \<^verbatim>\<open>embedSecret\<close>
  returns, each of red, green and blue of each pixel of the buffer differs from its
  value before by at most 1.
\<close>

theorem manipulateLSB_perturbation:
  assumes "newImg s = Some img" and "embedSecret s = (s', err)" and "newImg s' = Some img'"
  shows "(bit (manipulateLSB i b) 0 \<longleftrightarrow> b \<noteq> 0)
       \<and> \<not> bit (manipulateLSB i 0) 0 \<and> bit (manipulateLSB i 1) 0
       \<and> drop_bit 1 (manipulateLSB i b) = drop_bit 1 (word_of_int i :: u8)
       \<and> \<bar>uint (colR (RGBAAt img' x y)) - uint (colR (RGBAAt img x y))\<bar> \<le> 1
       \<and> \<bar>uint (colG (RGBAAt img' x y)) - uint (colG (RGBAAt img x y))\<bar> \<le> 1
       \<and> \<bar>uint (colB (RGBAAt img' x y)) - uint (colB (RGBAAt img x y))\<bar> \<le> 1"
proof -
  have "\<bar>uint (colR (RGBAAt img' x y)) - uint (colR (RGBAAt img x y))\<bar> \<le> 1"
    unfolding embedSecret_result(2) [OF assms, of x y]
    by (simp add: writePixel_channels manipulateLSB_near)
  moreover have "\<bar>uint (colG (RGBAAt img' x y)) - uint (colG (RGBAAt img x y))\<bar> \<le> 1"
    unfolding embedSecret_result(2) [OF assms, of x y]
    by (simp add: writePixel_channels manipulateLSB_near)
  moreover have "\<bar>uint (colB (RGBAAt img' x y)) - uint (colB (RGBAAt img x y))\<bar> \<le> 1"
    unfolding embedSecret_result(2) [OF assms, of x y]
    by (simp add: writePixel_channels manipulateLSB_near)
  moreover have "bit (manipulateLSB i b) 0 \<longleftrightarrow> b \<noteq> 0"
    and "\<not> bit (manipulateLSB i 0) 0" and "bit (manipulateLSB i 1) 0"
    by (simp_all add: manipulateLSB_bit0)
  moreover note manipulateLSB_drop [of i b]
  ultimately show ?thesis
    by blast
qed

theorem manipulateLSB_perturbation_witness:
  "\<bar>uint (colR (RGBAAt (the (newImg (fst (embedSecret sevenBits)))) 1 0))
      - uint (colR (RGBAAt twoByTwo 1 0))\<bar> \<le> 1
   \<and> \<bar>uint (colG (RGBAAt (the (newImg (fst (embedSecret sevenBits)))) 1 0))
      - uint (colG (RGBAAt twoByTwo 1 0))\<bar> \<le> 1
   \<and> \<bar>uint (colB (RGBAAt (the (newImg (fst (embedSecret sevenBits)))) 1 0))
      - uint (colB (RGBAAt twoByTwo 1 0))\<bar> \<le> 1"
  using manipulateLSB_perturbation [OF sevenBits_embedded, of 0 0 1 0]
  by blast

text \<open>
  C10. Whatever \<^verbatim>\<open>embedSecret\<close> returns, the alpha of every pixel of the buffer is the
  alpha it had before, which is \<open>uint8(a / 0x101)\<close> for the 16-bit alpha \<open>a\<close> that
  \<^verbatim>\<open>At(x, y).RGBA()\<close> reports; no payload bit reaches it. A pixel outside the
  rectangle, or one the loops reach after the last bit, is unchanged in all four
  channels.
\<close>

theorem embedSecret_alpha_preserved:
  assumes "newImg s = Some img" and "embedSecret s = (s', err)" and "newImg s' = Some img'"
  shows "colA (RGBAAt img' x y) = colA (RGBAAt img x y)
       \<and> colA (RGBAAt img' x y) = ucast (snd (snd (snd (RGBA (RGBAAt img x y)))) div 0x101)
       \<and> (\<not> inRect x y (Rect img) \<or> length (secretBits s) \<le> 3 * pixelIndex (Rect img) x y
            \<longrightarrow> RGBAAt img' x y = RGBAAt img x y)"
proof -
  have a: "colA (RGBAAt img' x y) = colA (RGBAAt img x y)"
    unfolding embedSecret_result(2) [OF assms, of x y]
    by (simp add: writePixel_channels)
  have b: "colA (RGBAAt img x y) = ucast (snd (snd (snd (RGBA (RGBAAt img x y)))) div 0x101)"
    by (simp add: RGBA_def Let_def ucast_dup_div)
  have c: "\<not> inRect x y (Rect img) \<or> length (secretBits s) \<le> 3 * pixelIndex (Rect img) x y
            \<longrightarrow> RGBAAt img' x y = RGBAAt img x y"
    unfolding embedSecret_result(2) [OF assms, of x y]
    by (auto simp add: writePixel_past)
  from a b c show ?thesis by simp
qed

theorem embedSecret_alpha_preserved_witness:
  "colA (RGBAAt (the (newImg (fst (embedSecret sevenBits)))) 1 0) = colA (RGBAAt twoByTwo 1 0)
   \<and> colA (RGBAAt (the (newImg (fst (embedSecret sevenBits)))) 1 1) = colA (RGBAAt twoByTwo 1 1)"
  using embedSecret_alpha_preserved [OF sevenBits_embedded, of 1 0]
        embedSecret_alpha_preserved [OF sevenBits_embedded, of 1 1]
  by blast

section \<open>The bits of the secret\<close>

lemma binDigits_pad:
  "n < 2 ^ k \<Longrightarrow>
     length (binDigits n) \<le> k
     \<and> replicate (k - length (binDigits n)) (CHR ''0'') @ binDigits n
         = map (\<lambda>i. if bit n (k - 1 - i) then CHR ''1'' else CHR ''0'') [0..<k]"
proof (induction k arbitrary: n)
  case 0
  then have "n = 0" by simp
  then show ?case by (simp add: binDigits.simps)
next
  case (Suc k)
  show ?case
  proof (cases "n = 0")
    case True
    then show ?thesis
      by (simp add: binDigits.simps map_replicate_const del: upt_Suc)
  next
    case False
    let ?m = "n div 2"
    let ?d = "if n mod 2 = 0 then CHR ''0'' else CHR ''1''"
    have bd: "binDigits n = binDigits ?m @ [?d]"
      using False by (subst binDigits.simps) simp
    from Suc.prems have "?m < 2 ^ k" by simp
    from Suc.IH [OF this]
    have len: "length (binDigits ?m) \<le> k"
      and pad: "replicate (k - length (binDigits ?m)) (CHR ''0'') @ binDigits ?m
                  = map (\<lambda>i. if bit ?m (k - 1 - i) then CHR ''1'' else CHR ''0'') [0..<k]"
      by simp_all
    have hi: "map (\<lambda>i. if bit n (Suc k - 1 - i) then CHR ''1'' else CHR ''0'') [0..<k]
                = map (\<lambda>i. if bit ?m (k - 1 - i) then CHR ''1'' else CHR ''0'') [0..<k]"
    proof (rule map_cong [OF refl])
      fix i assume "i \<in> set [0..<k]"
      then have "Suc k - 1 - i = Suc (k - 1 - i)" by auto
      then show "(if bit n (Suc k - 1 - i) then CHR ''1'' else CHR ''0'')
                   = (if bit ?m (k - 1 - i) then CHR ''1'' else CHR ''0'')"
        by (simp only: bit_Suc)
    qed
    have lo: "(if bit n 0 then CHR ''1'' else CHR ''0'') = ?d"
      by (simp add: bit_0 even_iff_mod_2_eq_zero)
    have "replicate (Suc k - length (binDigits n)) (CHR ''0'') @ binDigits n
            = (replicate (k - length (binDigits ?m)) (CHR ''0'') @ binDigits ?m) @ [?d]"
      by (simp add: bd)
    also have "\<dots> = map (\<lambda>i. if bit n (Suc k - 1 - i) then CHR ''1'' else CHR ''0'') [0..<k]
                        @ [if bit n (Suc k - 1 - k) then CHR ''1'' else CHR ''0'']"
      unfolding pad hi using lo by simp
    also have "\<dots> = map (\<lambda>i. if bit n (Suc k - 1 - i) then CHR ''1'' else CHR ''0'') [0..<Suc k]"
      by simp
    finally show ?thesis
      using len by (simp add: bd)
  qed
qed

lemma sprintf_08b_byte:
  "n < 256 \<Longrightarrow> sprintf_08b n = map (\<lambda>i. if bit n (7 - i) then CHR ''1'' else CHR ''0'') [0..<8]"
  using binDigits_pad [of n 8] by (simp add: sprintf_08b_def Let_def)

lemma decodeRune_ascii:
  "(of_char c :: nat) < 128 \<Longrightarrow> decodeRune (c # cs) = (of_char c, 1)"
  by (simp add: decodeRune_def)

lemma stringToBinaryLoop_ascii:
  "\<forall>c \<in> set s. (of_char c :: nat) < 128 \<Longrightarrow>
     stringToBinaryLoop s res = res @ concat (map (\<lambda>c. sprintf_08b (of_char c)) s)"
proof (induction s arbitrary: res)
  case Nil
  then show ?case by (simp add: stringToBinaryLoop.simps)
next
  case (Cons c cs)
  then have d: "decodeRune (c # cs) = (of_char c, 1)"
    by (simp add: decodeRune_ascii)
  have "stringToBinaryLoop (c # cs) res = stringToBinaryLoop cs (res @ sprintf_08b (of_char c))"
    by (subst stringToBinaryLoop.simps) (simp add: d)
  with Cons show ?case by simp
qed

lemma explode_ascii:
  "\<forall>c \<in> set s. (of_char c :: nat) < 128 \<Longrightarrow> explode s = map (\<lambda>c. [c]) s"
proof (induction s)
  case Nil
  then show ?case by (simp add: explode.simps)
next
  case (Cons c cs)
  then have d: "decodeRune (c # cs) = (of_char c, 1)"
    by (simp add: decodeRune_ascii)
  have "explode (c # cs) = [c] # explode cs"
    by (subst explode.simps) (simp add: d)
  with Cons show ?case by simp
qed

lemma Atoi_digit: "Atoi [CHR ''0''] = Inr 0" "Atoi [CHR ''1''] = Inr 1"
  by (simp_all add: Atoi_def isDigit_def Let_def)

lemma stringsToIntsLoop_binary:
  "isBinary b \<Longrightarrow> stringsToIntsLoop (map (\<lambda>c. [c]) b) ints = (ints @ map digitBit b, None)"
proof (induction b arbitrary: ints)
  case Nil
  then show ?case by simp
next
  case (Cons c cs)
  then have c: "c = CHR ''0'' \<or> c = CHR ''1''" and cs: "isBinary cs"
    by (simp_all add: isBinary_def)
  from c have "Atoi [c] = Inr (digitBit c)"
    by (auto simp: Atoi_digit digitBit_def)
  with Cons.IH [OF cs] show ?case by simp
qed

lemma isBinary_ascii:
  assumes "isBinary b"
  shows "\<forall>c \<in> set b. (of_char c :: nat) < 128"
proof
  fix c assume "c \<in> set b"
  with assms have "c = CHR ''0'' \<or> c = CHR ''1''"
    unfolding isBinary_def list_all_iff by blast
  then show "(of_char c :: nat) < 128"
  proof
    assume "c = CHR ''0''" then show ?thesis by simp
  next
    assume "c = CHR ''1''" then show ?thesis by simp
  qed
qed

lemma loadSecret_binary:
  assumes "isBinary (stringToBinary (secret @ stopStegConst))"
  shows "loadSecret s secret
           = (s\<lparr>secretBits := map digitBit (stringToBinary (secret @ stopStegConst))\<rparr>, None)"
proof -
  let ?b = "stringToBinary (secret @ stopStegConst)"
  have "Split ?b [] = map (\<lambda>c. [c]) ?b"
    using explode_ascii [OF isBinary_ascii [OF assms]] by (subst Split.simps) simp
  then show ?thesis
    using stringsToIntsLoop_binary [OF assms, of "[]"]
    by (simp add: loadSecret_def stringsToInts_def Let_def)
qed

lemma isBinary_append [simp]: "isBinary (a @ b) \<longleftrightarrow> isBinary a \<and> isBinary b"
  by (simp add: isBinary_def)

lemma isBinary_concat: "(\<forall>x \<in> set xs. isBinary x) \<Longrightarrow> isBinary (concat xs)"
  by (induction xs) (simp_all add: isBinary_def)

lemma isBinary_sprintf: "n < 256 \<Longrightarrow> isBinary (sprintf_08b n)"
  by (auto simp add: sprintf_08b_byte isBinary_def list_all_iff)

lemma digitBit_sprintf:
  "map digitBit (sprintf_08b (of_char c)) = msbFirstBits c"
proof -
  have "(of_char c :: nat) < 256"
    by (rule nat_of_char_less_256)
  then show ?thesis
    by (simp add: sprintf_08b_byte msbFirstBits_def digitBit_def)
qed

lemma stopSteg_ascii: "\<forall>c \<in> set stopStegConst. (of_char c :: nat) < 128"
  by (simp add: stopStegConst_def)

lemma stringToBinary_ascii:
  assumes "\<forall>c \<in> set s. (of_char c :: nat) < 128"
  shows "stringToBinary s = concat (map (\<lambda>c. sprintf_08b (of_char c)) s)"
    and "isBinary (stringToBinary s)"
    and "map digitBit (stringToBinary s) = concat (map msbFirstBits s)"
proof -
  show e: "stringToBinary s = concat (map (\<lambda>c. sprintf_08b (of_char c)) s)"
    using stringToBinaryLoop_ascii [OF assms, of "[]"] by (simp add: stringToBinary_def)
  show "isBinary (stringToBinary s)"
    unfolding e by (rule isBinary_concat) (auto intro: isBinary_sprintf nat_of_char_less_256)
  show "map digitBit (stringToBinary s) = concat (map msbFirstBits s)"
    unfolding e by (simp add: map_concat comp_def digitBit_sprintf)
qed

lemma length_msbFirstBits [simp]: "length (msbFirstBits c) = 8"
  by (simp add: msbFirstBits_def)

lemma length_concat_msb: "length (concat (map msbFirstBits s)) = 8 * length s"
  by (induction s) simp_all

lemma loadSecret_ascii:
  assumes "\<forall>c \<in> set secret. (of_char c :: nat) < 128"
  shows "loadSecret s secret
           = (s\<lparr>secretBits := concat (map msbFirstBits (secret @ stopStegConst))\<rparr>, None)"
proof -
  have a: "\<forall>c \<in> set (secret @ stopStegConst). (of_char c :: nat) < 128"
    using assms stopSteg_ascii by auto
  from loadSecret_binary [OF stringToBinary_ascii(2) [OF a], of s]
  show ?thesis
    by (simp only: stringToBinary_ascii(3) [OF a])
qed

lemma length_sprintf_byte: "n < 256 \<Longrightarrow> length (sprintf_08b n) = 8"
  by (simp add: sprintf_08b_byte)

lemma length_concat_sprintf:
  "length (concat (map (\<lambda>c. sprintf_08b (of_char c)) s)) = 8 * length s"
  by (induction s) (simp_all add: length_sprintf_byte)

lemma sprintf_euro: "sprintf_08b 8364 = ''10000010101100''"
  by (simp add: sprintf_08b_def binDigits.simps)

lemma stringToBinary_euro:
  "stringToBinary (euroSign @ stopStegConst)
     = ''10000010101100'' @ concat (map (\<lambda>c. sprintf_08b (of_char c)) stopStegConst)"
proof -
  have d: "decodeRune (euroSign @ stopStegConst) = (8364, 3)"
    by (simp add: decodeRune_def euroSign_def Let_def)
  have "stringToBinary (euroSign @ stopStegConst) = stringToBinaryLoop stopStegConst (sprintf_08b 8364)"
    unfolding stringToBinary_def
    by (subst stringToBinaryLoop.simps) (simp add: d, simp add: euroSign_def)
  then show ?thesis
    by (simp add: stringToBinaryLoop_ascii [OF stopSteg_ascii] sprintf_euro)
qed

text \<open>
  C6, as the code has it. For a secret of ASCII bytes (each below 0x80) \<^verbatim>\<open>loadSecret\<close>
  returns no error and leaves in \<open>secretBits\<close> the bits of \<open>secret + "##STOP_STEG##"\<close>,
  8 per byte, most significant first; their number is \<open>8 * (len(secret) + 13)\<close>, a
  multiple of 8. \<^verbatim>\<open>stringToBinary\<close> ranges over runes, not bytes, so beyond ASCII the
  count of bits follows the code points.
\<close>

theorem loadSecret_bitstream:
  assumes "\<forall>c \<in> set secret. (of_char c :: nat) < 128"
  shows "snd (loadSecret s secret) = None
       \<and> secretBits (fst (loadSecret s secret)) = concat (map msbFirstBits (secret @ stopStegConst))
       \<and> stopStegConst = ''##STOP_STEG##''
       \<and> length (secretBits (fst (loadSecret s secret))) = 8 * (length secret + 13)
       \<and> 8 dvd length (secretBits (fst (loadSecret s secret)))"
  by (simp add: loadSecret_ascii [OF assms] length_concat_msb) (simp add: stopStegConst_def)

theorem loadSecret_bitstream_witness:
  "snd (loadSecret emptySteg ''Karl'') = None
   \<and> secretBits (fst (loadSecret emptySteg ''Karl'')) = concat (map msbFirstBits ''Karl##STOP_STEG##'')
   \<and> length (secretBits (fst (loadSecret emptySteg ''Karl''))) = 136"
  using loadSecret_bitstream [of "''Karl''" emptySteg]
  by (simp add: stopStegConst_def)


text \<open>
  The euro sign is three bytes in UTF-8 and one rune, U+20AC, which \<open>%.8b\<close> prints with
  14 digits: 118 bits with the sentinel, not 8 * (3 + 13) and no multiple of 8.
\<close>

theorem loadSecret_bitstream_counterexample:
  "length (secretBits (fst (loadSecret emptySteg euroSign))) = 118
   \<and> \<not> 8 dvd (118 :: nat)
   \<and> 8 * (length euroSign + 13) = (128 :: nat)"
proof -
  have "isBinary ''10000010101100''"
    by (simp add: isBinary_def)
  moreover have "isBinary (concat (map (\<lambda>c. sprintf_08b (of_char c)) stopStegConst))"
    by (rule isBinary_concat) (auto intro: isBinary_sprintf nat_of_char_less_256)
  ultimately have b: "isBinary (stringToBinary (euroSign @ stopStegConst))"
    unfolding stringToBinary_euro isBinary_append by blast
  have "length (stringToBinary (euroSign @ stopStegConst)) = 118"
    unfolding stringToBinary_euro
    by (simp add: length_concat_sprintf) (simp add: stopStegConst_def)
  then have "length (secretBits (fst (loadSecret emptySteg euroSign))) = 118"
    by (simp add: loadSecret_binary [OF b])
  moreover have "8 * (length euroSign + 13) = (128 :: nat)"
    by (simp add: euroSign_def)
  ultimately show ?thesis
    by simp
qed

section \<open>The extraction in closed form\<close>

lemma scanColumn_closed:
  "k = nat (MaxY bounds + 1 - y) \<Longrightarrow>
     scanColumn img bounds x y bitsOut
       = bitsOut @ concat (map (\<lambda>y'. pixelBits img (x, y')) [y..MaxY bounds])"
proof (induction k arbitrary: y bitsOut)
  case 0
  then have "\<not> y \<le> MaxY bounds" by simp
  then show ?case
    by (subst scanColumn.simps) simp
next
  case (Suc k)
  then have y: "y \<le> MaxY bounds" and k: "k = nat (MaxY bounds + 1 - (y + 1))"
    by simp_all
  obtain r g b a where c: "imgAt img x y = (r, g, b, a)"
    by (cases "imgAt img x y")
  have "scanColumn img bounds x y bitsOut
          = scanColumn img bounds x (y + 1) (bitsOut @ getBitsFromRGB [r, g, b])"
    using y c by (subst scanColumn.simps) simp
  also have "\<dots> = (bitsOut @ getBitsFromRGB [r, g, b])
                      @ concat (map (\<lambda>y'. pixelBits img (x, y')) [y + 1..MaxY bounds])"
    by (rule Suc.IH [OF k])
  also have "\<dots> = bitsOut @ concat (map (\<lambda>y'. pixelBits img (x, y')) [y..MaxY bounds])"
    using y c by (simp add: upto_rec1 [of y] pixelBits_def)
  finally show ?case .
qed

lemma scanColumns_closed:
  "k = nat (MaxX bounds + 1 - x) \<Longrightarrow>
     scanColumns img bounds x bitsOut
       = bitsOut @ concat (map (pixelBits img)
                     (List.product [x..MaxX bounds] [MinY bounds..MaxY bounds]))"
proof (induction k arbitrary: x bitsOut)
  case 0
  then have "\<not> x \<le> MaxX bounds" by simp
  then show ?case
    by (subst scanColumns.simps) simp
next
  case (Suc k)
  then have x: "x \<le> MaxX bounds" and k: "k = nat (MaxX bounds + 1 - (x + 1))"
    by simp_all
  have "scanColumns img bounds x bitsOut
          = scanColumns img bounds (x + 1) (scanColumn img bounds x (MinY bounds) bitsOut)"
    using x by (subst scanColumns.simps) simp
  also have "\<dots> = scanColumn img bounds x (MinY bounds) bitsOut
                      @ concat (map (pixelBits img)
                          (List.product [x + 1..MaxX bounds] [MinY bounds..MaxY bounds]))"
    by (rule Suc.IH [OF k])
  also have "\<dots> = bitsOut @ concat (map (pixelBits img)
                          (List.product [x..MaxX bounds] [MinY bounds..MaxY bounds]))"
    using x by (simp add: scanColumn_closed [OF refl] upto_rec1 [of x] comp_def)
  finally show ?case .
qed

lemma length_pixelBits [simp]: "length (pixelBits img p) = 3"
  by (cases "imgAt img (fst p) (snd p)") (simp add: pixelBits_def)

lemma length_concat_triples:
  "(\<And>p. length (f p) = 3) \<Longrightarrow> length (concat (map f ps)) = 3 * length ps"
  by (induction ps) simp_all

lemma length_scanColumns:
  "length (scanColumns img bounds (MinX bounds) [])
     = 3 * (nat (MaxX bounds - MinX bounds + 1) * nat (MaxY bounds - MinY bounds + 1))"
  by (simp add: scanColumns_closed [OF refl] length_concat_triples)

lemma ceil8_bounds:
  fixes n :: nat
  shows "8 * ((n + 7) div 8) \<le> n + 7" and "n \<le> 8 * ((n + 7) div 8)"
  by linarith+

lemma ceil8:
  fixes i n :: nat
  assumes "8 dvd i"
  shows "i < n \<longleftrightarrow> i div 8 < (n + 7) div 8"
    and "i < n \<Longrightarrow> i + 8 \<le> 8 * ((n + 7) div 8)"
proof -
  from assms obtain k where k: "i = 8 * k" by (elim dvdE)
  define c where "c = (n + 7) div 8"
  have b: "8 * c \<le> n + 7" "n \<le> 8 * c"
    using ceil8_bounds [of n] by (simp_all add: c_def)
  have "8 * k < n \<longleftrightarrow> k < c"
  proof
    assume "8 * k < n"
    with b have "8 * k < 8 * c" by linarith
    then show "k < c" by simp
  next
    assume "k < c"
    then have "8 * k + 8 \<le> 8 * c" by simp
    with b show "8 * k < n" by linarith
  qed
  then show e: "i < n \<longleftrightarrow> i div 8 < (n + 7) div 8"
    by (simp add: k c_def)
  show "i + 8 \<le> 8 * ((n + 7) div 8)" if "i < n"
  proof -
    from that e have "k < c" by (simp add: k c_def)
    then have "8 * k + 8 \<le> 8 * c" by simp
    then show ?thesis by (simp add: k c_def)
  qed
qed

lemma ceil8_next:
  fixes i n c :: nat
  assumes "8 dvd i" "i + 8 \<le> c" "c < 8 * ((n + 7) div 8)"
  shows "i + 8 < n"
proof -
  from assms(1) obtain k where k: "i = 8 * k" by (elim dvdE)
  have d: "8 dvd i + 8" using assms(1) by simp
  from assms(2,3) have "8 * (k + 1) < 8 * ((n + 7) div 8)"
    by (simp add: k)
  then have "k + 1 < (n + 7) div 8"
    by simp
  then have "(i + 8) div 8 < (n + 7) div 8"
    by (simp add: k)
  with ceil8(1) [OF d, of n] show ?thesis by simp
qed

lemma ceil8_eq: "8 * ((n + 7) div 8) = n \<longleftrightarrow> 8 dvd (n :: nat)"
proof
  assume "8 * ((n + 7) div 8) = n"
  then show "8 dvd n" by (metis dvd_triv_left)
next
  assume "8 dvd n"
  then obtain k where "n = 8 * k" by (elim dvdE)
  then show "8 * ((n + 7) div 8) = n" by simp
qed


lemma bitsToStringLoop_returns:
  "8 dvd i \<Longrightarrow> 8 * ((length bits + 7) div 8) \<le> capacity \<Longrightarrow>
     bitsToStringLoop bits capacity i out
       = Inr (out @ concat (map (batchChar bits capacity) [i div 8..<(length bits + 7) div 8]))"
proof (induction bits capacity i out rule: bitsToStringLoop.induct)
  case (1 bits capacity i out)
  show ?case
  proof (cases "i < length bits")
    case True
    with ceil8 [OF "1.prems"(1), of "length bits"] "1.prems"(2)
    have fit: "i + 8 \<le> capacity" and lt: "i div 8 < (length bits + 7) div 8"
      by simp_all
    have d: "8 dvd i + 8" and q: "(i + 8) div 8 = Suc (i div 8)" and m: "8 * (i div 8) = i"
      using "1.prems"(1) by auto
    have st: "getCharFromBits (take 8 (drop i (bits @ replicate (capacity - length bits) 0)))
                = batchChar bits capacity (i div 8)"
      by (simp only: batchChar_def m)
    have "bitsToStringLoop bits capacity i out
            = bitsToStringLoop bits capacity (i + 8) (out @ batchChar bits capacity (i div 8))"
      by (subst bitsToStringLoop.simps) (simp only: True fit if_True st)
    also have "\<dots> = Inr ((out @ batchChar bits capacity (i div 8))
                 @ concat (map (batchChar bits capacity) [(i + 8) div 8..<(length bits + 7) div 8]))"
      using "1.IH" [OF True fit d "1.prems"(2)] by (simp only: st)
    also have "\<dots> = Inr (out @ concat (map (batchChar bits capacity)
                            [i div 8..<(length bits + 7) div 8]))"
      using lt by (simp add: q upt_conv_Cons)
    finally show ?thesis .
  next
    case False
    with ceil8(1) [OF "1.prems"(1), of "length bits"]
    have "\<not> i div 8 < (length bits + 7) div 8" by simp
    with False show ?thesis
      by (subst bitsToStringLoop.simps) simp
  qed
qed

lemma bitsToStringLoop_panics:
  "8 dvd i \<Longrightarrow> i < length bits \<Longrightarrow> capacity < 8 * ((length bits + 7) div 8) \<Longrightarrow>
     bitsToStringLoop bits capacity i out = Inl RuntimePanic"
proof (induction bits capacity i out rule: bitsToStringLoop.induct)
  case (1 bits capacity i out)
  show ?case
  proof (cases "i + 8 \<le> capacity")
    case True
    have d: "8 dvd i + 8" using "1.prems"(1) by simp
    have "i + 8 < length bits"
      using "1.prems"(1) True "1.prems"(3) by (rule ceil8_next)
    from "1.IH" [OF "1.prems"(2) True d this "1.prems"(3)]
    show ?thesis
      using True "1.prems"(2) by (subst bitsToStringLoop.simps) simp
  next
    case False
    then show ?thesis
      using "1.prems"(2) by (subst bitsToStringLoop.simps) simp
  qed
qed

lemma bitsToString_closed:
  "bitsToString bits capacity
     = (if 8 * ((length bits + 7) div 8) \<le> capacity
        then Inr (concat (map (batchChar bits capacity) [0..<(length bits + 7) div 8]))
        else Inl RuntimePanic)"
proof (cases "8 * ((length bits + 7) div 8) \<le> capacity")
  case True
  then show ?thesis
    using bitsToStringLoop_returns [of 0 bits capacity "[]"] by (simp add: bitsToString_def)
next
  case False
  then have "0 < length bits" by (cases "length bits") auto
  with False show ?thesis
    using bitsToStringLoop_panics [of 0 bits capacity "[]"] by (simp add: bitsToString_def)
qed

lemma ceil8_ge: "(n :: nat) \<le> 8 * ((n + 7) div 8)"
  by (rule ceil8_bounds(2))

lemma Index_le: "Index s sep = Some m \<Longrightarrow> m + length sep \<le> length s"
proof (induction s arbitrary: m)
  case Nil
  then show ?case by (simp split: if_splits)
next
  case (Cons c cs)
  show ?case
  proof (cases "take (length sep) (c # cs) = sep")
    case True
    then have "length (take (length sep) (c # cs)) = length sep"
      by simp
    then have "length sep \<le> length (c # cs)"
      unfolding length_take by linarith
    with True Cons.prems show ?thesis by simp
  next
    case False
    with Cons.prems obtain k where "Index cs sep = Some k" "m = Suc k" by auto
    with Cons.IH show ?thesis by simp
  qed
qed

lemma Index_Some:
  "Index s sep = Some m \<Longrightarrow>
     take (length sep) (drop m s) = sep \<and> (\<forall>j<m. take (length sep) (drop j s) \<noteq> sep)"
proof (induction s arbitrary: m)
  case Nil
  then show ?case by (simp split: if_splits)
next
  case (Cons c cs)
  show ?case
  proof (cases "take (length sep) (c # cs) = sep")
    case True
    with Cons.prems have "m = 0" by simp
    with True show ?thesis by simp
  next
    case False
    with Cons.prems obtain k where k: "Index cs sep = Some k" "m = Suc k" by auto
    from Cons.IH [OF k(1)] have
      a: "take (length sep) (drop k cs) = sep" and b: "\<forall>j<k. take (length sep) (drop j cs) \<noteq> sep"
      by simp_all
    have "take (length sep) (drop j (c # cs)) \<noteq> sep" if "j < m" for j
    proof (cases j)
      case 0
      with False show ?thesis by simp
    next
      case (Suc j')
      with that k b show ?thesis by simp
    qed
    with a k show ?thesis by simp
  qed
qed

lemma Index_None:
  "Index s sep = None \<Longrightarrow> take (length sep) (drop j s) \<noteq> sep"
proof (induction s arbitrary: j)
  case Nil
  then show ?case by (auto split: if_splits)
next
  case (Cons c cs)
  then have n0: "take (length sep) (c # cs) \<noteq> sep" and n: "Index cs sep = None"
    by (auto split: if_splits)
  show ?case
  proof (cases j)
    case 0
    with n0 show ?thesis by simp
  next
    case (Suc j')
    with Cons.IH [OF n, of j'] show ?thesis by simp
  qed
qed

lemma occurs_at:
  "tmp = pre @ sep @ post \<Longrightarrow> take (length sep) (drop (length pre) tmp) = sep"
  by simp

lemma Index_None_iff:
  "Index tmp sep = None \<longleftrightarrow> \<not> (\<exists>pre post. tmp = pre @ sep @ post)"
proof
  assume n: "Index tmp sep = None"
  show "\<not> (\<exists>pre post. tmp = pre @ sep @ post)"
  proof
    assume "\<exists>pre post. tmp = pre @ sep @ post"
    then obtain pre post where "tmp = pre @ sep @ post" by blast
    from occurs_at [OF this] Index_None [OF n, of "length pre"] show False by simp
  qed
next
  assume a: "\<not> (\<exists>pre post. tmp = pre @ sep @ post)"
  show "Index tmp sep = None"
  proof (rule ccontr)
    assume "Index tmp sep \<noteq> None"
    then obtain m where m: "Index tmp sep = Some m" by auto
    from Index_Some [OF m] have "take (length sep) (drop m tmp) = sep" by simp
    then have "tmp = take m tmp @ sep @ drop (length sep) (drop m tmp)"
      by (metis append_take_drop_id)
    with a show False by blast
  qed
qed

lemma Index_first:
  assumes "Index tmp sep = Some m"
  shows "tmp = take m tmp @ sep @ drop (m + length sep) tmp"
    and "tmp = pre @ sep @ post \<Longrightarrow> m \<le> length pre"
proof -
  from Index_Some [OF assms] have t: "take (length sep) (drop m tmp) = sep"
    and f: "\<forall>j<m. take (length sep) (drop j tmp) \<noteq> sep"
    by simp_all
  have "tmp = take m tmp @ drop m tmp"
    by simp
  also have "drop m tmp = take (length sep) (drop m tmp) @ drop (length sep) (drop m tmp)"
    by (simp only: append_take_drop_id)
  also have "drop (length sep) (drop m tmp) = drop (m + length sep) tmp"
    by (simp add: add.commute)
  finally show "tmp = take m tmp @ sep @ drop (m + length sep) tmp"
    unfolding t .
  show "m \<le> length pre" if "tmp = pre @ sep @ post"
  proof (rule ccontr)
    assume "\<not> m \<le> length pre"
    then have "length pre < m" by simp
    with f occurs_at [OF that] show False by blast
  qed
qed

lemma Split_found:
  "sep \<noteq> [] \<Longrightarrow> Index tmp sep = Some m \<Longrightarrow>
     Split tmp sep = take m tmp # Split (drop (m + length sep) tmp) sep"
  by (subst Split.simps) simp

lemma stopSteg_nonempty: "stopStegConst \<noteq> []"
  by (simp add: stopStegConst_def)

lemma getSecretString_regrouped:
  assumes "imgLoaded s = Some img"
    and "0 \<le> goInt (MaxX (imgBounds img) * MaxY (imgBounds img))"
    and "bitsToString (scanColumns img (imgBounds img) (MinX (imgBounds img)) [])
           (bitsOutCap (nat (goInt (MaxX (imgBounds img) * MaxY (imgBounds img))))
              (length (scanColumns img (imgBounds img) (MinX (imgBounds img)) [])) slack)
         = Inr tmp"
  shows "getSecretString s slack
           = (case Index tmp stopStegConst of
                None \<Rightarrow> Inl SentinelNotFound
              | Some m \<Rightarrow> Inr (take m tmp))"
proof (cases "Index tmp stopStegConst")
  case None
  with assms show ?thesis
    by (simp add: getSecretString_def Let_def Contains_def)
next
  case (Some m)
  with assms Split_found [OF stopSteg_nonempty Some] show ?thesis
    by (simp add: getSecretString_def Let_def Contains_def)
qed

lemma fold_or_bits_upto:
  fixes n :: nat
  shows "k \<le> 8 \<Longrightarrow>
    bit (foldl (\<lambda>tmp b. if bit n (7 - b) then tmp OR push_bit (7 - b) 1 else tmp) (0 :: nat) [0..<k]) j
      \<longleftrightarrow> 8 - k \<le> j \<and> j < 8 \<and> bit n j"
proof (induction k)
  case 0
  then show ?case by simp
next
  case (Suc k)
  then have k: "k \<le> 7" and IH: "bit (foldl (\<lambda>tmp b. if bit n (7 - b) then tmp OR push_bit (7 - b) 1 else tmp) (0 :: nat) [0..<k]) j
      \<longleftrightarrow> 8 - k \<le> j \<and> j < 8 \<and> bit n j"
    by simp_all
  have e: "8 - k \<le> j \<longleftrightarrow> 7 - k \<le> j \<and> j \<noteq> 7 - k"
    using k by linarith
  have s: "8 - Suc k = 7 - k" by simp
  show ?case
  proof (cases "bit n (7 - k)")
    case True
    then show ?thesis
      unfolding s using k by (auto simp add: IH e bit_simps)
  next
    case False
    then show ?thesis
      unfolding s using k by (auto simp add: IH e)
  qed
qed

lemma fold_or_bits:
  fixes n :: nat
  assumes "n < 256"
  shows "foldl (\<lambda>tmp b. if bit n (7 - b) then tmp OR push_bit (7 - b) 1 else tmp) (0 :: nat) [0..<8] = n"
proof -
  have tb: "take_bit 8 n = n"
    using assms by (simp add: take_bit_nat_eq_self_iff)
  have "foldl (\<lambda>tmp b. if bit n (7 - b) then tmp OR push_bit (7 - b) 1 else tmp) (0 :: nat) [0..<8]
          = take_bit 8 n"
    by (rule bit_eqI) (simp add: fold_or_bits_upto bit_take_bit_iff)
  with tb show ?thesis by simp
qed

lemma msbFirstBits_nth:
  "b < 8 \<Longrightarrow> msbFirstBits c ! b = (if bit (of_char c :: nat) (7 - b) then 1 else 0)"
  by (simp add: msbFirstBits_def del: upt_Suc)

lemma getCharFromBits_msbFirstBits:
  assumes "(of_char c :: nat) < 128"
  shows "getCharFromBits (msbFirstBits c) = [c]"
proof -
  let ?n = "of_char c :: nat"
  have "foldl (\<lambda>tmp b. if msbFirstBits c ! b = 1 then tmp OR push_bit (7 - b) 1 else tmp)
          (0 :: nat) [0..<8]
        = foldl (\<lambda>tmp b. if bit ?n (7 - b) then tmp OR push_bit (7 - b) 1 else tmp) (0 :: nat) [0..<8]"
    by (rule foldl_cong) (simp_all add: msbFirstBits_nth del: upt_Suc)
  also have "\<dots> = ?n"
    using assms by (intro fold_or_bits) simp
  finally show ?thesis
    using assms by (simp add: getCharFromBits_def del: upt_Suc)
qed

lemma of_char_less_256: "(of_char c :: nat) < 256"
proof -
  have "(of_char c :: nat) mod 256 < 256" by simp
  then show ?thesis by (simp only: of_char_mod_256)
qed

lemma getCharFromBits_byte:
  "getCharFromBits (msbFirstBits c)
     = (if (of_char c :: nat) < 0x80 then [c]
        else [char_of (0xC0 OR drop_bit 6 (of_char c :: nat)),
              char_of (0x80 OR ((of_char c :: nat) AND 0x3F))])"
proof -
  let ?n = "of_char c :: nat"
  have "foldl (\<lambda>tmp b. if msbFirstBits c ! b = 1 then tmp OR push_bit (7 - b) 1 else tmp)
          (0 :: nat) [0..<8]
        = foldl (\<lambda>tmp b. if bit ?n (7 - b) then tmp OR push_bit (7 - b) 1 else tmp) (0 :: nat) [0..<8]"
    by (rule foldl_cong) (simp_all add: msbFirstBits_nth del: upt_Suc)
  also have "\<dots> = ?n"
    by (rule fold_or_bits) (rule of_char_less_256)
  finally show ?thesis
    by (simp add: getCharFromBits_def Let_def del: upt_Suc)
qed

lemma msbFirstBits_binary: "x \<in> set (msbFirstBits c) \<Longrightarrow> x = 0 \<or> x = 1"
  by (auto simp: msbFirstBits_def)

lemma concat_msb_binary:
  "i < length (concat (map msbFirstBits s)) \<Longrightarrow>
     concat (map msbFirstBits s) ! i = 0 \<or> concat (map msbFirstBits s) ! i = 1"
proof -
  assume "i < length (concat (map msbFirstBits s))"
  then have "concat (map msbFirstBits s) ! i \<in> set (concat (map msbFirstBits s))"
    by (rule nth_mem)
  then obtain c where "concat (map msbFirstBits s) ! i \<in> set (msbFirstBits c)"
    by auto
  then show ?thesis by (rule msbFirstBits_binary)
qed

lemma concat_chunks:
  "(\<And>x. length (f x) = 8) \<Longrightarrow> j < length xs \<Longrightarrow>
     take 8 (drop (8 * j) (concat (map f xs))) = f (xs ! j)"
proof (induction xs arbitrary: j)
  case Nil
  then show ?case by simp
next
  case (Cons x xs)
  show ?case
  proof (cases j)
    case 0
    with Cons.prems(1) [of x] show ?thesis by simp
  next
    case (Suc j')
    with Cons.prems have "j' < length xs" by simp
    from Cons.IH [OF Cons.prems(1) this] Cons.prems(1) [of x] Suc show ?thesis
      by simp
  qed
qed

lemma concat_triples_nth:
  "(\<And>p. length (f p) = 3) \<Longrightarrow> i < 3 * length ps \<Longrightarrow>
     concat (map f ps) ! i = f (ps ! (i div 3)) ! (i mod 3)"
proof (induction ps arbitrary: i)
  case Nil
  then show ?case by simp
next
  case (Cons p ps)
  show ?case
  proof (cases "i < 3")
    case True
    with Cons.prems(1) [of p] show ?thesis by (simp add: nth_append)
  next
    case False
    define i' where "i' = i - 3"
    with False have i: "i = i' + 3" by simp
    with Cons.prems have "i' < 3 * length ps" by simp
    moreover have "(i' + 3) div 3 = Suc (i' div 3)" by simp
    ultimately show ?thesis
      using Cons.IH [OF Cons.prems(1), of i'] Cons.prems(1) [of p]
      by (simp add: i nth_append)
  qed
qed

lemma pixelBits_asImage:
  "pixelBits (asImage p) (x, y)
     = [if bit (colR (RGBAAt p x y)) 0 then 1 else 0,
        if bit (colG (RGBAAt p x y)) 0 then 1 else 0,
        if bit (colB (RGBAAt p x y)) 0 then 1 else 0]"
  by (simp add: pixelBits_def asImage_def RGBA_def Let_def dup_even)

lemma written_bits:
  assumes bin: "\<forall>i < length bits. bits ! i = 0 \<or> bits ! i = 1"
    and "j + c < length bits" and "c < 3"
  shows "[if bit (colR (writePixel bits j p)) 0 then 1 else 0,
          if bit (colG (writePixel bits j p)) 0 then 1 else 0,
          if bit (colB (writePixel bits j p)) 0 then (1 :: int) else 0] ! c
         = bits ! (j + c)"
proof -
  from assms(3) consider "c = 0" | "c = 1" | "c = 2" by linarith
  then show ?thesis
  proof cases
    case 1
    with assms(2) bin have "bits ! j = 0 \<or> bits ! j = 1" and "j < length bits" by simp_all
    with 1 show ?thesis
      by (auto simp add: writePixel_channels manipulateLSB_bit0)
  next
    case 2
    with assms(2) bin have "bits ! (j + 1) = 0 \<or> bits ! (j + 1) = 1" and "j + 1 < length bits"
      by simp_all
    with 2 show ?thesis
      by (auto simp add: writePixel_channels manipulateLSB_bit0)
  next
    case 3
    with assms(2) bin have "bits ! (j + 2) = 0 \<or> bits ! (j + 2) = 1" and "j + 2 < length bits"
      by simp_all
    with 3 show ?thesis
      by (auto simp add: writePixel_channels manipulateLSB_bit0)
  qed
qed

lemma first_column_nth:
  assumes "a \<le> b" and "int k \<le> d - c"
  shows "List.product [a..b] [c..d] ! k = (a, c + int k)"
proof -
  have ly: "length [c..d] = nat (d - c + 1)" by simp
  have k: "k < nat (d - c + 1)" using assms(2) by linarith
  obtain m where m: "nat (b - a + 1) = Suc m"
    using assms(1) by (cases "nat (b - a + 1)") simp_all
  have "k < length [a..b] * length [c..d]"
    using k by (simp add: m)
  then have "List.product [a..b] [c..d] ! k = ([a..b] ! (k div length [c..d]), [c..d] ! (k mod length [c..d]))"
    by (rule product_nth)
  moreover have "k div length [c..d] = 0" "k mod length [c..d] = k"
    using k by (simp_all add: ly)
  moreover have "[a..b] ! 0 = a" using assms(1) by (simp add: upto_rec1)
  moreover have "[c..d] ! k = c + int k" using assms(2) by simp
  ultimately show ?thesis by simp
qed

lemma scan_prefix:
  assumes px: "\<And>x y. RGBAAt out x y =
            (if inRect x y b then writePixel bits (3 * pixelIndex b x y) (RGBAAt img0 x y)
             else RGBAAt img0 x y)"
    and bin: "\<forall>i < length bits. bits ! i = 0 \<or> bits ! i = 1"
    and w: "MinX b < MaxX b"
    and fit: "int (length bits) \<le> 3 * (MaxY b - MinY b)"
  shows "take (length bits) (scanColumns (asImage out) b (MinX b) []) = bits"
proof (rule nth_equalityI)
  let ?ps = "List.product [MinX b..MaxX b] [MinY b..MaxY b]"
  let ?scan = "scanColumns (asImage out) b (MinX b) []"
  have scan: "?scan = concat (map (pixelBits (asImage out)) ?ps)"
    by (simp add: scanColumns_closed [OF refl])
  obtain m where m: "nat (MaxX b - MinX b + 1) = Suc m"
    using w by (cases "nat (MaxX b - MinX b + 1)") simp_all
  from fit have h: "0 \<le> MaxY b - MinY b"
    by arith
  then have "int (length bits) \<le> int (3 * nat (MaxY b - MinY b + 1))"
    using fit by simp
  then have "length bits \<le> 3 * nat (MaxY b - MinY b + 1)"
    by (simp only: of_nat_le_iff)
  also have "\<dots> \<le> 3 * (nat (MaxX b - MinX b + 1) * nat (MaxY b - MinY b + 1))"
    by (simp add: m)
  finally have len: "length bits \<le> length ?scan"
    by (simp add: length_scanColumns)
  then show "length (take (length bits) ?scan) = length bits"
    by simp
  fix i assume "i < length (take (length bits) ?scan)"
  then have i: "i < length bits" by simp
  let ?k = "i div 3"
  let ?y = "MinY b + int ?k"
  have k: "int ?k < MaxY b - MinY b"
    using i fit by arith
  have "i < 3 * length ?ps"
    using i len by (simp add: scan length_concat_triples)
  then have "?scan ! i = pixelBits (asImage out) (?ps ! ?k) ! (i mod 3)"
    unfolding scan by (intro concat_triples_nth) simp
  also have "?ps ! ?k = (MinX b, ?y)"
    using w k by (intro first_column_nth) simp_all
  also have "pixelBits (asImage out) (MinX b, ?y) ! (i mod 3) = bits ! (3 * ?k + i mod 3)"
  proof -
    have inr: "inRect (MinX b) ?y b"
      using w k by (simp add: inRect_def)
    have pi: "pixelIndex b (MinX b) ?y = ?k"
      by (simp add: pixelIndex_def)
    have "RGBAAt out (MinX b) ?y = writePixel bits (3 * ?k) (RGBAAt img0 (MinX b) ?y)"
      using px [of "MinX b" ?y] inr pi by simp
    moreover have "3 * ?k + i mod 3 < length bits"
      using i by simp
    ultimately show ?thesis
      using written_bits [OF bin, of "3 * ?k" "i mod 3" "RGBAAt img0 (MinX b) ?y"]
      by (simp add: pixelBits_asImage)
  qed
  finally show "take (length bits) ?scan ! i = bits ! i"
    using i by simp
qed

lemma concat_singletons:
  "length msg = n \<Longrightarrow> (\<And>j. j < n \<Longrightarrow> f j = [msg ! j]) \<Longrightarrow> concat (map f [0..<n]) = msg"
proof (induction n arbitrary: msg)
  case 0
  then show ?case by simp
next
  case (Suc n)
  then obtain t c where t: "msg = t @ [c]" "length t = n"
    by (metis length_Suc_conv_rev)
  have "concat (map f [0..<n]) = t"
  proof (rule Suc.IH [OF t(2)])
    fix j assume "j < n"
    with Suc.prems(2) [of j] t show "f j = [t ! j]"
      by (simp add: nth_append)
  qed
  moreover have "f n = [c]"
    using Suc.prems(2) [of n] t by (simp add: nth_append)
  ultimately show ?case
    using t by simp
qed

lemma regroup_prefix:
  assumes pre: "take (8 * length msg) scan = concat (map msbFirstBits msg)"
    and len: "8 * length msg \<le> length scan"
    and ascii: "\<forall>c \<in> set msg. (of_char c :: nat) < 128"
    and cap: "8 * ((length scan + 7) div 8) \<le> capacity"
  shows "\<exists>rest. bitsToString scan capacity = Inr (msg @ rest)"
proof -
  let ?L = "(length scan + 7) div 8"
  have L: "length msg \<le> ?L"
    using len by linarith
  have ch: "batchChar scan capacity j = [msg ! j]" if "j < length msg" for j
  proof -
    have j8: "8 * j + 8 \<le> 8 * length msg"
      using that by simp
    have "take 8 (drop (8 * j) (scan @ replicate (capacity - length scan) 0))
            = take 8 (drop (8 * j) scan)"
      using j8 len by simp
    also have "\<dots> = take 8 (drop (8 * j) (take (8 * length msg) scan))"
      using j8 by (simp add: drop_take min_def)
    also have "\<dots> = msbFirstBits (msg ! j)"
      unfolding pre using that by (intro concat_chunks) simp_all
    finally show ?thesis
      using ascii that by (simp add: batchChar_def getCharFromBits_msbFirstBits)
  qed
  have "[0..<?L] = [0..<length msg] @ [length msg..<?L]"
    using L by (metis le_add_diff_inverse upt_add_eq_append zero_le)
  then have "concat (map (batchChar scan capacity) [0..<?L])
               = concat (map (batchChar scan capacity) [0..<length msg])
                 @ concat (map (batchChar scan capacity) [length msg..<?L])"
    by simp
  also have "concat (map (batchChar scan capacity) [0..<length msg]) = msg"
    by (rule concat_singletons [OF refl]) (rule ch)
  finally show ?thesis
    using cap by (simp add: bitsToString_closed)
qed

lemma take_short: "n \<le> length xs \<Longrightarrow> take n (xs @ ys) = take n xs"
  by simp

lemma Index_append_right:
  "Index s sep = Some m \<Longrightarrow> Index (s @ rest) sep = Some m"
proof (induction s arbitrary: m)
  case Nil
  then have "sep = []" "m = 0" by (simp_all split: if_splits)
  then show ?case by (cases rest) simp_all
next
  case (Cons c cs)
  show ?case
  proof (cases "take (length sep) (c # cs) = sep")
    case True
    then have "length (take (length sep) (c # cs)) = length sep" by simp
    then have "length sep \<le> length (c # cs)"
      unfolding length_take by linarith
    then have "take (length sep) ((c # cs) @ rest) = take (length sep) (c # cs)"
      by (rule take_short)
    with True Cons.prems show ?thesis by simp
  next
    case False
    with Cons.prems obtain k where k: "Index cs sep = Some k" "m = Suc k" by auto
    from Index_le [OF k(1)] have "length sep \<le> length (c # cs)" by simp
    then have "take (length sep) ((c # cs) @ rest) = take (length sep) (c # cs)"
      by (rule take_short)
    with False Cons.IH [OF k(1)] k show ?thesis by simp
  qed
qed

lemma length_stopSteg: "length stopStegConst = 13"
  by (simp add: stopStegConst_def)

lemma embed_then_regroup:
  assumes ascii: "\<forall>c \<in> set secret. (of_char c :: nat) < 128"
    and src: "imgLoaded s = Some src"
    and alloc: "0 \<le> mul3NonNeg 4 (goInt (MaxX (imgBounds src) - MinX (imgBounds src)))
                         (goInt (MaxY (imgBounds src) - MinY (imgBounds src)))"
    and w: "MinX (imgBounds src) < MaxX (imgBounds src)"
    and col: "8 * (int (length secret) + 13) \<le> 3 * (MaxY (imgBounds src) - MinY (imgBounds src))"
    and capa: "8 * (int (length secret) + 13) \<le> goInt (goInt (MaxX (imgBounds src) * MaxY (imgBounds src)) * 3)"
    and regroup: "8 * ((scanCount (imgBounds src) + 7) div 8)
                    \<le> bitsOutCap (nat (goInt (MaxX (imgBounds src) * MaxY (imgBounds src))))
                         (scanCount (imgBounds src)) slack"
  shows "\<exists>s' out rest. DoStegEmbed s secret = (s', None) \<and> newImg s' = Some out
           \<and> imgBounds (asImage out) = imgBounds src
           \<and> bitsToString (scanColumns (asImage out) (imgBounds (asImage out))
                              (MinX (imgBounds (asImage out))) [])
                (bitsOutCap (nat (goInt (MaxX (imgBounds (asImage out)) * MaxY (imgBounds (asImage out)))))
                   (length (scanColumns (asImage out) (imgBounds (asImage out))
                              (MinX (imgBounds (asImage out))) [])) slack)
               = Inr (secret @ stopStegConst @ rest)"
proof -
  let ?b = "imgBounds src"
  define msg where "msg = secret @ stopStegConst"
  define bits where "bits = concat (map msbFirstBits msg)"
  have wf: "\<not> mul3NonNeg 4 (goInt (MaxX ?b - MinX ?b)) (goInt (MaxY ?b - MinY ?b)) < 0"
    using alloc by simp
  obtain img0 where c: "createMutableImage s = (s\<lparr>newImg := Some img0\<rparr>, None)"
    and r0: "Rect img0 = ?b"
    using src wf by (simp add: createMutableImage_def Let_def)
  define s2 where "s2 = s\<lparr>newImg := Some img0, secretBits := bits\<rparr>"
  have l: "loadSecret (s\<lparr>newImg := Some img0\<rparr>) secret = (s2, None)"
    unfolding s2_def bits_def msg_def by (rule loadSecret_ascii [OF ascii])
  have s2: "newImg s2 = Some img0" "secretBits s2 = bits"
    by (simp_all add: s2_def)
  have n: "length bits = 8 * length msg"
    unfolding bits_def by (rule length_concat_msb)
  have lm: "length msg = length secret + 13"
    by (simp add: msg_def length_stopSteg)
  have ni: "int (length bits) = 8 * (int (length secret) + 13)"
    unfolding n lm by simp
  have "\<not> goInt (goInt (MaxX (Rect img0) * MaxY (Rect img0)) * 3) < int (length (secretBits s2))"
    unfolding s2 r0 ni using capa by linarith
  from embedSecret_closed [OF s2(1) this]
  obtain out where e: "embedSecret s2 = (s2\<lparr>newImg := Some out\<rparr>, None)"
    and r: "Rect out = Rect img0"
    and px0: "\<forall>x y. RGBAAt out x y =
            (if inRect x y (Rect img0)
             then writePixel (secretBits s2) (3 * pixelIndex (Rect img0) x y) (RGBAAt img0 x y)
             else RGBAAt img0 x y)"
    by blast
  have px: "RGBAAt out x y =
            (if inRect x y ?b then writePixel bits (3 * pixelIndex ?b x y) (RGBAAt img0 x y)
             else RGBAAt img0 x y)" for x y
    using px0 unfolding s2 r0 by blast
  have d: "DoStegEmbed s secret = (s2\<lparr>newImg := Some out\<rparr>, None)"
    by (simp add: DoStegEmbed_def c l e)
  have bin: "\<forall>i < length bits. bits ! i = 0 \<or> bits ! i = 1"
    unfolding bits_def using concat_msb_binary by blast
  have fit: "int (length bits) \<le> 3 * (MaxY ?b - MinY ?b)"
    unfolding ni using col .
  let ?scan = "scanColumns (asImage out) ?b (MinX ?b) []"
  from scan_prefix [of out ?b bits img0, OF px bin w fit]
  have pre: "take (length bits) ?scan = bits" .
  then have "length (take (length bits) ?scan) = length bits"
    by simp
  then have len: "length bits \<le> length ?scan"
    by simp
  have am: "\<forall>c \<in> set msg. (of_char c :: nat) < 128"
    unfolding msg_def using ascii stopSteg_ascii by auto
  have ls: "length ?scan = scanCount ?b"
    by (simp add: length_scanColumns scanCount_def)
  have pre': "take (8 * length msg) ?scan = concat (map msbFirstBits msg)"
    using pre [unfolded n] unfolding bits_def .
  have len': "8 * length msg \<le> length ?scan"
    using len unfolding n .
  have cap': "8 * ((length ?scan + 7) div 8)
                \<le> bitsOutCap (nat (goInt (MaxX ?b * MaxY ?b))) (length ?scan) slack"
    unfolding ls using regroup .
  from regroup_prefix [OF pre' len' am cap']
  obtain rest where g: "bitsToString ?scan (bitsOutCap (nat (goInt (MaxX ?b * MaxY ?b))) (length ?scan) slack)
                       = Inr (msg @ rest)"
    by blast
  have b: "imgBounds (asImage out) = ?b"
    by (simp add: asImage_def r r0)
  have o: "newImg (s2\<lparr>newImg := Some out\<rparr>) = Some out"
    by simp
  have "msg @ rest = secret @ stopStegConst @ rest"
    by (simp add: msg_def)
  with g have g': "bitsToString ?scan (bitsOutCap (nat (goInt (MaxX ?b * MaxY ?b))) (length ?scan) slack)
                       = Inr (secret @ stopStegConst @ rest)"
    by simp
  have g2: "bitsToString (scanColumns (asImage out) (imgBounds (asImage out))
                              (MinX (imgBounds (asImage out))) [])
                (bitsOutCap (nat (goInt (MaxX (imgBounds (asImage out)) * MaxY (imgBounds (asImage out)))))
                   (length (scanColumns (asImage out) (imgBounds (asImage out))
                              (MinX (imgBounds (asImage out))) [])) slack)
               = Inr (secret @ stopStegConst @ rest)"
    using g' by (simp only: b)
  from d o b g2 show ?thesis
    by blast
qed

lemma Index_prefix: "sep \<noteq> [] \<Longrightarrow> Index (sep @ post) sep = Some 0"
  by (cases sep) simp_all

lemma getSecretString_panics:
  assumes "imgLoaded s = Some img"
    and "0 \<le> goInt (MaxX (imgBounds img) * MaxY (imgBounds img))"
    and "bitsOutCap (nat (goInt (MaxX (imgBounds img) * MaxY (imgBounds img)))) (scanCount (imgBounds img)) slack
           < 8 * ((scanCount (imgBounds img) + 7) div 8)"
  shows "getSecretString s slack = Inl RuntimePanic"
  using assms
  by (simp add: getSecretString_def Let_def bitsToString_closed length_scanColumns scanCount_def)

lemma bitsOutCap_ge: "len \<le> bitsOutCap initial len slack"
  by (simp add: bitsOutCap_def)

lemma bitsToString_whole_batches:
  assumes d: "8 dvd length bits" and c: "length bits \<le> capacity"
  shows "bitsToString bits capacity = bitsToString bits (length bits)"
proof -
  let ?n = "length bits"
  have e: "8 * ((?n + 7) div 8) = ?n"
    using d by (simp only: ceil8_eq)
  have b: "batchChar bits capacity j = batchChar bits ?n j" if "j < (?n + 7) div 8" for j
  proof -
    from that have "8 * j + 8 \<le> 8 * ((?n + 7) div 8)" by simp
    with e have "8 * j + 8 \<le> ?n" by simp
    then have l: "8 \<le> length (drop (8 * j) bits)" and k: "8 * j \<le> ?n" by simp_all
    have t: "take 8 (drop (8 * j) (bits @ ys)) = take 8 (drop (8 * j) bits)" for ys
    proof -
      from k have "drop (8 * j) (bits @ ys) = drop (8 * j) bits @ ys" by simp
      with take_short [OF l, of ys] show ?thesis by (simp only:)
    qed
    show ?thesis
      by (simp only: batchChar_def t)
  qed
  have "map (batchChar bits capacity) [0..<(?n + 7) div 8]
          = map (batchChar bits ?n) [0..<(?n + 7) div 8]"
    by (rule map_cong) (simp_all add: b)
  then have m: "concat (map (batchChar bits capacity) [0..<(?n + 7) div 8])
          = concat (map (batchChar bits ?n) [0..<(?n + 7) div 8])"
    by (simp only:)
  from e c show ?thesis
    by (simp add: bitsToString_closed m)
qed

lemma getSecretString_whole_batches:
  assumes "imgLoaded s = Some img" and "8 dvd scanCount (imgBounds img)"
  shows "getSecretString s slack = getSecretString s 0"
proof -
  let ?scan = "scanColumns img (imgBounds img) (MinX (imgBounds img)) []"
  have l: "length ?scan = scanCount (imgBounds img)"
    by (simp add: length_scanColumns scanCount_def)
  have "bitsToString ?scan (bitsOutCap c (length ?scan) k) = bitsToString ?scan (length ?scan)" for c k
    by (rule bitsToString_whole_batches) (simp_all add: l assms(2) bitsOutCap_ge)
  then show ?thesis
    using assms(1) by (simp add: getSecretString_def Let_def)
qed

lemma DoStegEmbed_bounds:
  assumes "imgLoaded s = Some src" and "DoStegEmbed s secret = (s', None)"
    and "newImg s' = Some out"
  shows "Rect out = imgBounds src"
proof -
  from assms(1,2) obtain img0 where c: "createMutableImage s = (s\<lparr>newImg := Some img0\<rparr>, None)"
    and r0: "Rect img0 = imgBounds src"
    by (auto simp: createMutableImage_def DoStegEmbed_def Let_def split: if_splits)
  obtain s2 where l: "loadSecret (s\<lparr>newImg := Some img0\<rparr>) secret = (s2, None)"
    and e: "embedSecret s2 = (s', None)"
    using assms(2) c
    by (auto simp: DoStegEmbed_def split: prod.splits option.splits)
  have n2: "newImg s2 = Some img0"
    using l by (auto simp: loadSecret_def Let_def split: prod.splits)
  from embedSecret_result(1) [OF n2 e assms(3)] r0 show ?thesis by simp
qed

section \<open>What the extraction reads\<close>



text \<open>
  C8, as the code has it. The scan accumulates three bits per visited point. The
  regrouping takes the slices \<open>bits[i : i+8]\<close> for \<open>i = 0, 8, ...\<close> below the number of
  bits; the last of them ends at that number rounded up to a multiple of 8, which is
  the number itself exactly when it is a multiple of 8, and is beyond it otherwise.
  Go checks a slice expression against the capacity: \<^verbatim>\<open>bitsToString\<close> returns exactly when
  the rounded number is within the capacity (the missing bits read as 0) and panics
  otherwise. With no spare capacity it panics exactly when the number of bits is no
  multiple of 8.
\<close>

theorem bitsToString_slices:
  "length (scanColumns img bounds (MinX bounds) [])
     = 3 * length (List.product [MinX bounds..MaxX bounds] [MinY bounds..MaxY bounds])
   \<and> ((\<exists>out. bitsToString bits capacity = Inr out)
        \<longleftrightarrow> 8 * ((length bits + 7) div 8) \<le> capacity)
   \<and> (bitsToString bits capacity = Inl RuntimePanic
        \<longleftrightarrow> capacity < 8 * ((length bits + 7) div 8))
   \<and> length bits \<le> 8 * ((length bits + 7) div 8)
   \<and> (8 * ((length bits + 7) div 8) = length bits \<longleftrightarrow> 8 dvd length bits)
   \<and> (bitsToString bits (length bits) = Inl RuntimePanic \<longleftrightarrow> \<not> 8 dvd length bits)"
proof -
  have a: "length (scanColumns img bounds (MinX bounds) [])
     = 3 * length (List.product [MinX bounds..MaxX bounds] [MinY bounds..MaxY bounds])"
    by (simp add: length_scanColumns)
  have b: "(\<exists>out. bitsToString bits capacity = Inr out)
        \<longleftrightarrow> 8 * ((length bits + 7) div 8) \<le> capacity"
    by (simp add: bitsToString_closed)
  have c: "bitsToString bits capacity = Inl RuntimePanic
        \<longleftrightarrow> capacity < 8 * ((length bits + 7) div 8)"
    by (simp add: bitsToString_closed)
  have d: "bitsToString bits (length bits) = Inl RuntimePanic \<longleftrightarrow> \<not> 8 dvd length bits"
    using ceil8_eq [of "length bits"] ceil8_ge [of "length bits"]
    by (simp add: bitsToString_closed)
  from a b c d ceil8_eq [of "length bits"] ceil8_ge [of "length bits"]
  show ?thesis by blast
qed

theorem bitsToString_slices_witness:
  "bitsToString (replicate 12 0) 12 = Inl RuntimePanic
   \<and> (\<exists>out. bitsToString (replicate 12 0) 16 = Inr out)
   \<and> (\<exists>out. bitsToString (replicate 16 0) 16 = Inr out)"
  using bitsToString_slices [of "blackImage 1 1" "imgBounds (blackImage 1 1)" "replicate 12 0" 12]
        bitsToString_slices [of "blackImage 1 1" "imgBounds (blackImage 1 1)" "replicate 12 0" 16]
        bitsToString_slices [of "blackImage 1 1" "imgBounds (blackImage 1 1)" "replicate 16 0" 16]
  by simp

text \<open>
  The scan of a 2 by 2 image visits 9 points and accumulates 27 bits. With a capacity
  of 32 (five spare elements) the regrouping returns four characters and the
  extraction ends with "error finding embedded secret string", not with a panic.
\<close>

theorem bitsToString_slices_counterexample:
  "length (scanColumns (blackImage 2 2) (imgBounds (blackImage 2 2)) 0 []) = 27
   \<and> \<not> 8 dvd (27 :: nat)
   \<and> bitsToString (scanColumns (blackImage 2 2) (imgBounds (blackImage 2 2)) 0 []) 32
       = Inr (replicate 4 (CHR 0x00))
   \<and> getSecretString (loaded (blackImage 2 2)) 5 = Inl SentinelNotFound"
  by code_simp

text \<open>
  The search for the sentinel. When the image is loaded and the regrouping has returned
  the candidate text \<open>tmp\<close>: \<open>tmp\<close> is the concatenation of the characters of the batches
  of 8 bits, a batch being read most significant bit first (\<open>getCharFromBits_byte\<close>
  gives the character of every byte value); the sentinel is contained in \<open>tmp\<close> exactly
  when \<open>tmp = pre + sentinel + post\<close> for some \<open>pre\<close> and \<open>post\<close>; if it is not, the result
  is the error "error finding embedded secret string"; if it is, the result is the part
  of \<open>tmp\<close> before the first occurrence, the shortest such \<open>pre\<close>, whatever follows it.
\<close>

lemma getSecretString_found_or_not:
  assumes "imgLoaded s = Some img"
    and "0 \<le> goInt (MaxX (imgBounds img) * MaxY (imgBounds img))"
    and "bitsToString (scanColumns img (imgBounds img) (MinX (imgBounds img)) [])
           (bitsOutCap (nat (goInt (MaxX (imgBounds img) * MaxY (imgBounds img))))
              (length (scanColumns img (imgBounds img) (MinX (imgBounds img)) [])) slack)
         = Inr tmp"
  shows "tmp = concat (map (batchChar (scanColumns img (imgBounds img) (MinX (imgBounds img)) [])
                  (bitsOutCap (nat (goInt (MaxX (imgBounds img) * MaxY (imgBounds img))))
                     (length (scanColumns img (imgBounds img) (MinX (imgBounds img)) [])) slack))
                [0..<(length (scanColumns img (imgBounds img) (MinX (imgBounds img)) []) + 7) div 8])"
    and "Contains tmp stopStegConst \<longleftrightarrow> (\<exists>pre post. tmp = pre @ stopStegConst @ post)"
    and "\<not> Contains tmp stopStegConst \<Longrightarrow> getSecretString s slack = Inl SentinelNotFound"
    and "Contains tmp stopStegConst \<Longrightarrow>
            \<exists>m. Index tmp stopStegConst = Some m
                 \<and> getSecretString s slack = Inr (take m tmp)
                 \<and> tmp = take m tmp @ stopStegConst @ drop (m + length stopStegConst) tmp
                 \<and> (\<forall>pre post. tmp = pre @ stopStegConst @ post \<longrightarrow> m \<le> length pre)"
proof -
  show "tmp = concat (map (batchChar (scanColumns img (imgBounds img) (MinX (imgBounds img)) [])
                  (bitsOutCap (nat (goInt (MaxX (imgBounds img) * MaxY (imgBounds img))))
                     (length (scanColumns img (imgBounds img) (MinX (imgBounds img)) [])) slack))
                [0..<(length (scanColumns img (imgBounds img) (MinX (imgBounds img)) []) + 7) div 8])"
    using assms(3) by (simp add: bitsToString_closed split: if_splits)
  show "Contains tmp stopStegConst \<longleftrightarrow> (\<exists>pre post. tmp = pre @ stopStegConst @ post)"
    using Index_None_iff [of tmp stopStegConst] by (simp add: Contains_def)
  show "getSecretString s slack = Inl SentinelNotFound" if "\<not> Contains tmp stopStegConst"
    using getSecretString_regrouped [OF assms] that by (simp add: Contains_def)
  show "\<exists>m. Index tmp stopStegConst = Some m
                 \<and> getSecretString s slack = Inr (take m tmp)
                 \<and> tmp = take m tmp @ stopStegConst @ drop (m + length stopStegConst) tmp
                 \<and> (\<forall>pre post. tmp = pre @ stopStegConst @ post \<longrightarrow> m \<le> length pre)"
    if "Contains tmp stopStegConst"
  proof -
    from that obtain m where m: "Index tmp stopStegConst = Some m"
      by (auto simp: Contains_def)
    from getSecretString_regrouped [OF assms] m
    have "getSecretString s slack = Inr (take m tmp)" by simp
    with m Index_first [OF m] show ?thesis by blast
  qed
qed

text \<open>
  C7. Extraction from an image that holds no sentinel is to end with "error finding
  embedded secret string", and it does whenever the regrouping returns. On the clean
  image of one pixel the regrouping does not return. The scan visits 4 points and
  accumulates 12 bits, all 0; under \<^verbatim>\<open>append\<close> the capacity of the slice grows from 1 to
  3, 6 and 12, which leaves no spare element; the second slice of the regrouping,
  \<open>bits[8:16]\<close>, is out of range and the extraction panics.
\<close>

theorem getSecretString_clean_pixel:
  "scanColumns (blackImage 1 1) (imgBounds (blackImage 1 1)) (MinX (imgBounds (blackImage 1 1))) []
     = replicate 12 0
   \<and> bitsOutCap (nat (goInt (MaxX (imgBounds (blackImage 1 1)) * MaxY (imgBounds (blackImage 1 1))))) 12 0 = 12
   \<and> getSecretString (loaded (blackImage 1 1)) 0 = Inl RuntimePanic"
  by code_simp

section \<open>Embedding, then extracting\<close>

text \<open>
  Where the round trip holds. Let the secret be ASCII, let the sentinel not occur in
  \<open>secret + sentinel\<close> before the end of the secret, let \<^verbatim>\<open>image.NewRGBA\<close> and \<^verbatim>\<open>make\<close>
  accept the bounds of the loaded image, let the image have at least one column, and
  let the bits, \<open>8 * (len(secret) + 13)\<close> of them, fit the first column and pass the
  check of \<^verbatim>\<open>embedSecret\<close>. Let the regrouping of the extraction stay within the capacity
  of its slice. Then \<^verbatim>\<open>DoStegEmbed\<close> succeeds and \<^verbatim>\<open>getSecretString\<close> on the image it
  produced returns the secret. An image of 1 by 47 pixels returns "Karl" so, whatever
  the spare capacity: the scan accumulates 288 bits, a multiple of 8.
\<close>

lemma roundtrip_first_column:
  assumes ascii: "\<forall>c \<in> set secret. (of_char c :: nat) < 128"
    and first: "Index (secret @ stopStegConst) stopStegConst = Some (length secret)"
    and src: "imgLoaded s = Some src"
    and alloc: "0 \<le> mul3NonNeg 4 (goInt (MaxX (imgBounds src) - MinX (imgBounds src)))
                         (goInt (MaxY (imgBounds src) - MinY (imgBounds src)))"
    and cap: "0 \<le> goInt (MaxX (imgBounds src) * MaxY (imgBounds src))"
    and w: "MinX (imgBounds src) < MaxX (imgBounds src)"
    and col: "8 * (int (length secret) + 13) \<le> 3 * (MaxY (imgBounds src) - MinY (imgBounds src))"
    and capa: "8 * (int (length secret) + 13) \<le> goInt (goInt (MaxX (imgBounds src) * MaxY (imgBounds src)) * 3)"
    and regroup: "8 * ((scanCount (imgBounds src) + 7) div 8)
                    \<le> bitsOutCap (nat (goInt (MaxX (imgBounds src) * MaxY (imgBounds src))))
                         (scanCount (imgBounds src)) slack"
  shows "\<exists>s' out. DoStegEmbed s secret = (s', None) \<and> newImg s' = Some out
           \<and> getSecretString (t\<lparr>imgLoaded := Some (asImage out)\<rparr>) slack = Inr secret"
proof -
  from embed_then_regroup [OF ascii src alloc w col capa regroup]
  obtain s' out rest where d: "DoStegEmbed s secret = (s', None)" and o: "newImg s' = Some out"
    and b: "imgBounds (asImage out) = imgBounds src"
    and g: "bitsToString (scanColumns (asImage out) (imgBounds (asImage out))
                              (MinX (imgBounds (asImage out))) [])
                (bitsOutCap (nat (goInt (MaxX (imgBounds (asImage out)) * MaxY (imgBounds (asImage out)))))
                   (length (scanColumns (asImage out) (imgBounds (asImage out))
                              (MinX (imgBounds (asImage out))) [])) slack)
               = Inr (secret @ stopStegConst @ rest)"
    by blast
  have nn: "0 \<le> goInt (MaxX (imgBounds (asImage out)) * MaxY (imgBounds (asImage out)))"
    unfolding b using cap .
  have i: "Index (secret @ stopStegConst @ rest) stopStegConst = Some (length secret)"
    using Index_append_right [OF first, of rest] by simp
  have "getSecretString (t\<lparr>imgLoaded := Some (asImage out)\<rparr>) slack = Inr secret"
    using getSecretString_regrouped [of "t\<lparr>imgLoaded := Some (asImage out)\<rparr>" "asImage out", OF _ nn g]
    by (simp add: i)
  with d o show ?thesis by blast
qed

lemma roundtrip_one_column:
  "\<exists>s' out. DoStegEmbed (loaded (blackImage 1 47)) ''Karl'' = (s', None) \<and> newImg s' = Some out
           \<and> getSecretString (emptySteg\<lparr>imgLoaded := Some (asImage out)\<rparr>) slack = Inr ''Karl''"
proof -
  have i: "Index (''Karl'' @ stopStegConst) stopStegConst = Some (length ''Karl'')"
    by (simp add: stopStegConst_def)
  show ?thesis
    by (rule roundtrip_first_column [of "''Karl''" "loaded (blackImage 1 47)" "blackImage 1 47" slack, OF _ i])
       (simp_all add: loaded_def emptySteg_def blackImage_def scanCount_def bitsOutCap_def
          goInt_id mul3NonNeg_def)
qed

text \<open>
  The first occurrence of the sentinel ends the payload: the secret "##STOP_STEG##" in
  an image of 1 by 71 pixels comes back empty.
\<close>

lemma sentinel_as_secret:
  "8 * (length stopStegConst + length stopStegConst) \<le> (1 * 71 * 3 :: nat)
   \<and> snd (DoStegEmbed (loaded (blackImage 1 71)) stopStegConst) = None
   \<and> getSecretString
         (emptySteg\<lparr>imgLoaded :=
            Some (asImage (the (newImg (fst (DoStegEmbed (loaded (blackImage 1 71)) stopStegConst)))))\<rparr>) slack
       = Inr []"
proof -
  have "\<exists>s' out rest. DoStegEmbed (loaded (blackImage 1 71)) stopStegConst = (s', None)
           \<and> newImg s' = Some out
           \<and> imgBounds (asImage out) = imgBounds (blackImage 1 71)
           \<and> bitsToString (scanColumns (asImage out) (imgBounds (asImage out))
                              (MinX (imgBounds (asImage out))) [])
                (bitsOutCap (nat (goInt (MaxX (imgBounds (asImage out)) * MaxY (imgBounds (asImage out)))))
                   (length (scanColumns (asImage out) (imgBounds (asImage out))
                              (MinX (imgBounds (asImage out))) [])) slack)
               = Inr (stopStegConst @ stopStegConst @ rest)"
    by (rule embed_then_regroup [of stopStegConst "loaded (blackImage 1 71)" "blackImage 1 71" slack,
          OF stopSteg_ascii])
       (simp_all add: loaded_def emptySteg_def blackImage_def scanCount_def bitsOutCap_def
          length_stopSteg goInt_id mul3NonNeg_def)
  then obtain s' out rest where d: "DoStegEmbed (loaded (blackImage 1 71)) stopStegConst = (s', None)"
    and o: "newImg s' = Some out"
    and b: "imgBounds (asImage out) = imgBounds (blackImage 1 71)"
    and g: "bitsToString (scanColumns (asImage out) (imgBounds (asImage out))
                              (MinX (imgBounds (asImage out))) [])
                (bitsOutCap (nat (goInt (MaxX (imgBounds (asImage out)) * MaxY (imgBounds (asImage out)))))
                   (length (scanColumns (asImage out) (imgBounds (asImage out))
                              (MinX (imgBounds (asImage out))) [])) slack)
               = Inr (stopStegConst @ stopStegConst @ rest)"
    by blast
  have n: "0 \<le> goInt (MaxX (imgBounds (asImage out)) * MaxY (imgBounds (asImage out)))"
    unfolding b by (simp add: blackImage_def goInt_id)
  have i: "Index (stopStegConst @ stopStegConst @ rest) stopStegConst = Some 0"
    by (rule Index_prefix [OF stopSteg_nonempty])
  have "getSecretString (emptySteg\<lparr>imgLoaded := Some (asImage out)\<rparr>) slack = Inr []"
    using getSecretString_regrouped [of "emptySteg\<lparr>imgLoaded := Some (asImage out)\<rparr>" "asImage out", OF _ n g]
    by (simp add: i)
  moreover have "the (newImg (fst (DoStegEmbed (loaded (blackImage 1 71)) stopStegConst))) = out"
    using d o by simp
  moreover have "snd (DoStegEmbed (loaded (blackImage 1 71)) stopStegConst) = None"
    using d by simp
  ultimately show ?thesis
    by (simp add: length_stopSteg)
qed

text \<open>
  C1. An image of 7 by 7 pixels has capacity 147 and takes the 136 bits of "Karl" and
  the sentinel in columns of 21 bits. The loops of \<^verbatim>\<open>getSecretString\<close> run to \<open>Max.X\<close> and
  \<open>Max.Y\<close> inclusive where the loops of \<^verbatim>\<open>embedSecret\<close> stop before them: the scan reads 8
  points per column, the eighth outside the image, so three 0 bits follow each column,
  the bytes after the first column are out of step and the sentinel is not found,
  whatever the spare capacity of the slice. The extraction is applied to the
  \<^verbatim>\<open>image.RGBA\<close> the embedding produced.
\<close>

theorem roundtrip_seven_by_seven:
  "8 * (length ''Karl'' + length stopStegConst) \<le> (7 * 7 * 3 :: nat)
   \<and> snd (DoStegEmbed (loaded (blackImage 7 7)) ''Karl'') = None
   \<and> getSecretString
         (emptySteg\<lparr>imgLoaded :=
            Some (asImage (the (newImg (fst (DoStegEmbed (loaded (blackImage 7 7)) ''Karl'')))))\<rparr>) slack
       = Inl SentinelNotFound"
proof -
  let ?d = "DoStegEmbed (loaded (blackImage 7 7)) ''Karl''"
  let ?t = "emptySteg\<lparr>imgLoaded := Some (asImage (the (newImg (fst ?d))))\<rparr>"
  have z: "8 * (length ''Karl'' + length stopStegConst) \<le> (7 * 7 * 3 :: nat)
   \<and> snd ?d = None \<and> newImg (fst ?d) \<noteq> None
   \<and> getSecretString ?t 0 = Inl SentinelNotFound"
    by code_simp
  then obtain out where o: "newImg (fst ?d) = Some out"
    by blast
  from z have d: "?d = (fst ?d, None)"
    by (metis prod.collapse)
  have l: "imgLoaded (loaded (blackImage 7 7)) = Some (blackImage 7 7)"
    by (simp add: loaded_def emptySteg_def)
  have b: "imgBounds (asImage out) = imgBounds (blackImage 7 7)"
    using DoStegEmbed_bounds [OF l d o] by (simp add: asImage_def)
  have t: "imgLoaded ?t = Some (asImage out)"
    by (simp add: o)
  have e: "8 dvd scanCount (imgBounds (asImage out))"
    unfolding b by (simp add: blackImage_def scanCount_def)
  from getSecretString_whole_batches [OF t e, of slack] z show ?thesis
    by simp
qed


end
